theory Spec2Isabelle
  imports Complex_Main "HOL-Library.Word"
begin

unbundle bit_operations_syntax

section \<open>Numbers, typed arrays and errors\<close>

text \<open>
  The codec of \<^verbatim>\<open>src/index.ts\<close> works on \<^verbatim>\<open>Uint8Array\<close> values (file
  contents, packed files, ciphertexts) and on the channel array of an image, which is a
  \<^verbatim>\<open>Uint8ClampedArray\<close> in a browser and a \<^verbatim>\<open>Uint8Array\<close> in the test
  harness. A typed array is a list of 8-bit words. JavaScript numbers that take part in bit
  arithmetic are integers; every operand the codec builds stays in \<open>[0, 2^16)\<close>, where the
  32-bit conversions of \<^verbatim>\<open><<\<close>, \<^verbatim>\<open>>>\<close>, \<^verbatim>\<open>&\<close> and \<^verbatim>\<open>|\<close>
  are the identity, so they are the bit operations of \<^typ>\<open>int\<close>.
\<close>

type_synonym byte = "8 word"

text \<open>
  Every \<^verbatim>\<open>throw\<close> of the source is a constructor; the comment gives the thrown
  message and the name the specification uses for it.
\<close>

datatype error =
    BitsTakenError        \<comment> \<open>'Bits taken must be >= 1 and <= 8' (BitsOutOfRange)\<close>
  | EmptyNameError        \<comment> \<open>'file name must contain at least 1 character' (CorruptHeader)\<close>
  | FileNameError         \<comment> \<open>'File name must be 1-255 chars' (InvalidName)\<close>
  | RequiredLengthError   \<comment> \<open>'requiredLength is lesser than result' (LengthTooSmall, FileTooLarge)\<close>
  | EncryptedBlobError    \<comment> \<open>'Encrypted blob must be equal to total data length' (EncryptionSizeMismatch)\<close>
  | CannotHideError       \<comment> \<open>'StegImage#hideBlob: Can't hide ... bytes in ... bytes'\<close>
  | RandomBitsError       \<comment> \<open>'StegImage#hideBlob: Need more than 7 random bits'\<close>
  | BufBitsError          \<comment> \<open>'StegImage#hideBlob: bufBits !== bitsTaken'\<close>
  | PixelLengthError      \<comment> \<open>'StegImage#hideBlob: Current pixel length ...' (CursorMismatch)\<close>
  | RangeError            \<comment> \<open>thrown by the platform: DataView access out of bounds, negative array length\<close>
  | AeadError             \<comment> \<open>thrown by the encryption provider (AuthenticationFailed)\<close>

datatype array_kind = Uint8Array | Uint8ClampedArray

text \<open>Conversion of a stored integer to an element: modulo 256, or clamped to \<open>[0, 255]\<close>.\<close>

definition to_elem :: "array_kind \<Rightarrow> int \<Rightarrow> byte" where
  "to_elem k v = (case k of Uint8Array \<Rightarrow> word_of_int v
                          | Uint8ClampedArray \<Rightarrow> word_of_int (max 0 (min 255 v)))"

text \<open>
  \<^verbatim>\<open>arr[i]\<close>: the element as a number, \<^verbatim>\<open>undefined\<close> (\<open>None\<close>) out of
  range. \<^verbatim>\<open>arr[i] = v\<close>: a store out of range is ignored, which is what
  \<^term>\<open>list_update\<close> does.
\<close>

definition elem_get :: "byte list \<Rightarrow> nat \<Rightarrow> int option" where
  "elem_get arr i = (if i < length arr then Some (uint (arr ! i)) else None)"

definition elem_set :: "array_kind \<Rightarrow> byte list \<Rightarrow> nat \<Rightarrow> int \<Rightarrow> byte list" where
  "elem_set k arr i v = arr[i := to_elem k v]"

text \<open>The operand conversion of the bit operators: \<^verbatim>\<open>undefined\<close> becomes 0.\<close>

fun to_int32 :: "int option \<Rightarrow> int" where
  "to_int32 None = 0"
| "to_int32 (Some v) = v"

text \<open>
  \<^verbatim>\<open>new Uint8Array(n)\<close>: \<open>n\<close> zeros, a \<^verbatim>\<open>RangeError\<close> for a negative
  length. \<^verbatim>\<open>dst.set(src, offset)\<close> copies \<open>src\<close> into \<open>dst\<close> and throws when it
  does not fit. \<^verbatim>\<open>arr.subarray(begin, end)\<close> clamps both ends to the array.
\<close>

definition new_array :: "int \<Rightarrow> error + byte list" where
  "new_array n = (if n < 0 then Inl RangeError else Inr (replicate (nat n) 0))"

definition array_set :: "byte list \<Rightarrow> byte list \<Rightarrow> nat \<Rightarrow> error + byte list" where
  "array_set dst src offset =
     (if offset + length src \<le> length dst
      then Inr (take offset dst @ src @ drop (offset + length src) dst)
      else Inl RangeError)"

definition subarray :: "byte list \<Rightarrow> nat \<Rightarrow> nat \<Rightarrow> byte list" where
  "subarray arr begin end = take (end - begin) (drop begin arr)"

text \<open>
  The \<^verbatim>\<open>DataView\<close> accessors used by the file format. Multi-byte values are
  big-endian; a stored number is reduced modulo \<open>2^8\<close> or \<open>2^32\<close>; an access that
  leaves the view throws.
\<close>

definition getUint8 :: "byte list \<Rightarrow> nat \<Rightarrow> error + nat" where
  "getUint8 view offset =
     (if offset + 1 \<le> length view then Inr (unat (view ! offset)) else Inl RangeError)"

definition getUint32 :: "byte list \<Rightarrow> nat \<Rightarrow> error + nat" where
  "getUint32 view offset =
     (if offset + 4 \<le> length view
      then Inr (unat (view ! offset) * 2 ^ 24 + unat (view ! (offset + 1)) * 2 ^ 16
              + unat (view ! (offset + 2)) * 2 ^ 8 + unat (view ! (offset + 3)))
      else Inl RangeError)"

definition setUint8 :: "byte list \<Rightarrow> nat \<Rightarrow> nat \<Rightarrow> error + byte list" where
  "setUint8 view offset v =
     (if offset + 1 \<le> length view then Inr (view[offset := of_nat v]) else Inl RangeError)"

definition setUint32 :: "byte list \<Rightarrow> nat \<Rightarrow> nat \<Rightarrow> error + byte list" where
  "setUint32 view offset v =
     (if offset + 4 \<le> length view
      then Inr (view[offset := of_nat (v div 2 ^ 24),
                     offset + 1 := of_nat (v div 2 ^ 16),
                     offset + 2 := of_nat (v div 2 ^ 8),
                     offset + 3 := of_nat v])
      else Inl RangeError)"

section \<open>External collaborators\<close>

text \<open>
  \<^verbatim>\<open>utils.utf8ToBytes\<close> and \<^verbatim>\<open>utils.bytesToUtf8\<close> call the platform's
  \<^verbatim>\<open>TextEncoder\<close> and \<^verbatim>\<open>TextDecoder\<close>; \<^verbatim>\<open>aes.encrypt\<close> and
  \<^verbatim>\<open>aes.decrypt\<close> come from the package \<^verbatim>\<open>micro-aes-gcm\<close>. Neither is part
  of the repository: both are parameters of the model, and a theorem that needs a property
  of them states it as a hypothesis.
\<close>

record text_coder =
  encode :: "string \<Rightarrow> byte list"
  decode :: "byte list \<Rightarrow> string"

record aead =
  encrypt :: "byte list \<Rightarrow> byte list \<Rightarrow> error + byte list"
  decrypt :: "byte list \<Rightarrow> byte list \<Rightarrow> error + byte list"

definition utf8ToBytes :: "text_coder \<Rightarrow> string \<Rightarrow> byte list" where
  "utf8ToBytes tc str = encode tc str"

definition bytesToUtf8 :: "text_coder \<Rightarrow> byte list \<Rightarrow> string" where
  "bytesToUtf8 tc bs = decode tc bs"

text \<open>
  The coder restricted to ASCII text, one byte per character, for evaluation at concrete
  inputs.
\<close>

definition ascii_coder :: text_coder where
  "ascii_coder = \<lparr> encode = map (\<lambda>c. of_nat (of_char c)),
                   decode = map (\<lambda>b. char_of (unat b)) \<rparr>"


section \<open>RawFile\<close>

record RawFile =
  data :: "byte list"
  name :: string
  size :: nat

text \<open>A non-negative integer in a template literal: its decimal digits.\<close>

fun decimal :: "nat \<Rightarrow> string" where
  "decimal n = (if n < 10 then [char_of (48 + n)]
                else decimal (n div 10) @ [char_of (48 + n mod 10)])"

text \<open>The constructor: an empty name is replaced by \<^verbatim>\<open>file-${this.size}.file\<close>.\<close>

definition new_RawFile :: "byte list \<Rightarrow> string \<Rightarrow> RawFile" where
  "new_RawFile d n =
     (let sz = length d
      in \<lparr> data = d,
           name = (if n = [] then ''file-'' @ decimal sz @ ''.file'' else n),
           size = sz \<rparr>)"

definition fromPacked :: "text_coder \<Rightarrow> byte list \<Rightarrow> error + RawFile" where
  "fromPacked tc packed =
     (let padded = packed; offset = 0 in
      case getUint8 padded offset of Inl e \<Rightarrow> Inl e | Inr nsize \<Rightarrow>
      let offset = offset + 1 in
      if nsize < 1 then Inl EmptyNameError else
      let nm = bytesToUtf8 tc (subarray padded offset (offset + nsize));
          offset = offset + nsize in
      case getUint32 padded offset of Inl e \<Rightarrow> Inl e | Inr fsize \<Rightarrow>
      let offset = offset + 4;
          unpadded = subarray padded offset (offset + fsize)
      in Inr (new_RawFile unpadded nm))"

definition createHeader :: "text_coder \<Rightarrow> RawFile \<Rightarrow> error + byte list" where
  "createHeader tc f =
     (let nbytes = utf8ToBytes tc (name f);
          nsize = length nbytes in
      if nsize < 1 \<or> nsize > 255 then Inl FileNameError else
      let metadataSize = 1 + nsize + 4 in
      case new_array (int metadataSize) of Inl e \<Rightarrow> Inl e | Inr meta \<Rightarrow>
      let offset = 0 in
      case setUint8 meta offset nsize of Inl e \<Rightarrow> Inl e | Inr meta \<Rightarrow>
      let offset = offset + 1 in
      case array_set meta nbytes offset of Inl e \<Rightarrow> Inl e | Inr meta \<Rightarrow>
      let offset = offset + nsize in
      case setUint32 meta offset (size f) of Inl e \<Rightarrow> Inl e | Inr meta \<Rightarrow>
      Inr meta)"

definition pack :: "text_coder \<Rightarrow> RawFile \<Rightarrow> error + byte list" where
  "pack tc f =
     (case createHeader tc f of Inl e \<Rightarrow> Inl e | Inr header \<Rightarrow>
      case new_array (int (length header + size f)) of Inl e \<Rightarrow> Inl e | Inr packed \<Rightarrow>
      case array_set packed header 0 of Inl e \<Rightarrow> Inl e | Inr packed \<Rightarrow>
      case array_set packed (data f) (length header) of Inl e \<Rightarrow> Inl e | Inr packed \<Rightarrow>
      Inr packed)"

definition packWithPadding :: "text_coder \<Rightarrow> RawFile \<Rightarrow> int \<Rightarrow> error + byte list" where
  "packWithPadding tc f requiredLength =
     (case pack tc f of Inl e \<Rightarrow> Inl e | Inr packed \<Rightarrow>
      let difference = requiredLength - int (length packed) in
      if difference < 0 then Inl RequiredLengthError else
      case new_array (int (length packed) + difference) of Inl e \<Rightarrow> Inl e | Inr padded \<Rightarrow>
      case array_set padded packed 0 of Inl e \<Rightarrow> Inl e | Inr padded \<Rightarrow>
      Inr padded)"

section \<open>Helpers of the bit codec\<close>

text \<open>\<^verbatim>\<open>validateBits\<close>: the argument is an integer by its type here.\<close>

definition validateBits :: "int \<Rightarrow> error + unit" where
  "validateBits bitsTaken = (let b = bitsTaken in
     if \<not> (b \<ge> 1 \<and> b \<le> 8) then Inl BitsTakenError else Inr ())"

text \<open>Shift counts are taken modulo 32 by \<^verbatim>\<open><<\<close> and \<^verbatim>\<open>>>\<close>.\<close>

definition shift_count :: "int \<Rightarrow> nat" where
  "shift_count n = nat (n mod 32)"

definition clearBits :: "int \<Rightarrow> int \<Rightarrow> int" where
  "clearBits n bits = push_bit (shift_count bits) (drop_bit (shift_count bits) n)"

definition readBit :: "int \<Rightarrow> int \<Rightarrow> int" where
  "readBit byte pos = drop_bit (shift_count (7 - pos)) byte AND 1"

definition isAlpha :: "nat \<Rightarrow> bool" where
  "isAlpha pixel \<longleftrightarrow> pixel mod 4 = 3"

section \<open>StegImage\<close>

text \<open>
  The state of a \<^verbatim>\<open>StegImage\<close> that the codec reads and writes is
  \<^verbatim>\<open>this.imageData.data\<close>: the channel array and its kind. Decoding an image into
  it and encoding it back belong to the rendering collaborator.
\<close>

record image_data =
  kind :: array_kind
  channels :: "byte list"

record capacity =
  bits :: rat
  bytes :: int

text \<open>
  \<^verbatim>\<open>calcCapacity\<close>. The divisions are divisions of JavaScript numbers, so a length
  that is not a multiple of 4 gives a fractional number of pixels; the values are small
  dyadic rationals, which doubles represent exactly.
\<close>

definition calcCapacity :: "image_data \<Rightarrow> int \<Rightarrow> error + capacity" where
  "calcCapacity img bitsTaken =
     (case validateBits bitsTaken of Inl e \<Rightarrow> Inl e | Inr _ \<Rightarrow>
        let rgba = 4;
            channelsNoFirst = int (length (channels img)) - rgba;
            pixels = (of_int channelsNoFirst :: rat) / of_int rgba;
            rgb = 3;
            bits = pixels * rgb * of_int bitsTaken;
            bytes = \<lfloor>bits / 8\<rfloor>
        in Inr \<lparr> bits = bits, bytes = bytes \<rparr>)"

text \<open>\<^verbatim>\<open>revealBitsTaken\<close>.\<close>

definition revealBitsTaken :: "image_data \<Rightarrow> error + int" where
  "revealBitsTaken img =
     (let chs = channels img;
          bit0 = push_bit 2 (readBit (to_int32 (elem_get chs 0)) 7);
          bit1 = push_bit 1 (readBit (to_int32 (elem_get chs 1)) 7);
          bit2 = readBit (to_int32 (elem_get chs 2)) 7;
          bitsTaken = 1 + (bit0 OR bit1 OR bit2)
      in case validateBits bitsTaken of Inl e \<Rightarrow> Inl e | Inr _ \<Rightarrow> Inr bitsTaken)"

subsection \<open>hideBlob\<close>

text \<open>
  The state of one \<^verbatim>\<open>hideBlob\<close> call: the channel array being written, the cursor
  \<^verbatim>\<open>channelId\<close>, the bit buffer \<^verbatim>\<open>buf\<close> with its fill count
  \<^verbatim>\<open>bufBits\<close>, and the number of random bytes drawn so far. The random source is a
  parameter \<open>rnd\<close>: the \<open>i\<close>-th call of \<^verbatim>\<open>getRandomByte\<close> returns \<open>rnd i\<close>.
\<close>

record cursor =
  arr :: "byte list"
  channelId :: nat
  buf :: int
  bufBits :: int
  draws :: nat

text \<open>The closure \<^verbatim>\<open>writeChannel(data, bits)\<close>.\<close>

definition writeChannel :: "array_kind \<Rightarrow> int \<Rightarrow> int \<Rightarrow> cursor \<Rightarrow> cursor" where
  "writeChannel k dat nbits st =
     (let curr = elem_get (arr st) (channelId st);
          arr1 = elem_set k (arr st) (channelId st) (clearBits (to_int32 curr) nbits OR dat);
          c1 = channelId st + 1
      in if isAlpha c1
         then st \<lparr> arr := elem_set k arr1 c1 256, channelId := c1 + 1 \<rparr>
         else st \<lparr> arr := arr1, channelId := c1 \<rparr>)"

text \<open>\<^verbatim>\<open>while (channelId < 3) writeChannel(readBit(bitsTaken - 1, 8 - 3 + channelId), 1)\<close>\<close>

function header_loop :: "array_kind \<Rightarrow> int \<Rightarrow> cursor \<Rightarrow> cursor" where
  "header_loop k bitsTaken st =
     (if channelId st < 3
      then header_loop k bitsTaken
             (writeChannel k (readBit (bitsTaken - 1) (8 - 3 + int (channelId st))) 1 st)
      else st)"
  by pat_completeness auto
termination
  by (relation "measure (\<lambda>(k, bitsTaken, st). 3 - channelId st)")
     (auto simp: writeChannel_def Let_def)

declare header_loop.simps [simp del]

text \<open>The body of the loop over the bits of one payload byte, then the two loops.\<close>

definition hide_bit :: "array_kind \<Rightarrow> int \<Rightarrow> int \<Rightarrow> int \<Rightarrow> cursor \<Rightarrow> cursor" where
  "hide_bit k bitsTaken hiddenDataByte bitIdx st =
     (let st1 = st \<lparr> buf := push_bit 1 (buf st) OR readBit hiddenDataByte bitIdx,
                     bufBits := bufBits st + 1 \<rparr>
      in if bufBits st1 = bitsTaken
         then (writeChannel k (buf st1) bitsTaken st1) \<lparr> buf := 0, bufBits := 0 \<rparr>
         else st1)"

definition hide_byte :: "array_kind \<Rightarrow> int \<Rightarrow> byte \<Rightarrow> cursor \<Rightarrow> cursor" where
  "hide_byte k bitsTaken b st =
     fold (\<lambda>bitIdx. hide_bit k bitsTaken (uint b) (int bitIdx)) [0..<8] st"

definition hide_bytes :: "array_kind \<Rightarrow> int \<Rightarrow> byte list \<Rightarrow> cursor \<Rightarrow> cursor" where
  "hide_bytes k bitsTaken hData st = fold (hide_byte k bitsTaken) hData st"

text \<open>The leftover bits: the loop that fills the buffer from one random byte, then the flush.\<close>

function fill_loop :: "int \<Rightarrow> int \<Rightarrow> int \<Rightarrow> cursor \<Rightarrow> error + cursor" where
  "fill_loop randomByte leftoverBits i st =
     (if i < leftoverBits
      then (if i > 7 then Inl RandomBitsError
            else fill_loop randomByte leftoverBits (i + 1)
                   (st \<lparr> buf := push_bit 1 (buf st) OR readBit randomByte i,
                         bufBits := bufBits st + 1 \<rparr>))
      else Inr st)"
  by pat_completeness auto
termination
  by (relation "measure (\<lambda>(randomByte, leftoverBits, i, st). nat (leftoverBits - i))") auto

declare fill_loop.simps [simp del]

definition flush_leftovers ::
  "array_kind \<Rightarrow> (nat \<Rightarrow> byte) \<Rightarrow> int \<Rightarrow> cursor \<Rightarrow> error + cursor" where
  "flush_leftovers k rnd bitsTaken st =
     (if bufBits st \<noteq> 0
      then let randomByte = uint (rnd (draws st));
               st = st \<lparr> draws := draws st + 1 \<rparr>;
               leftoverBits = bitsTaken - bufBits st
           in case fill_loop randomByte leftoverBits 0 st of
                Inl e \<Rightarrow> Inl e
              | Inr st \<Rightarrow>
                  if bufBits st \<noteq> bitsTaken then Inl BufBitsError
                  else Inr (writeChannel k (buf st) bitsTaken st)
      else Inr st)"

text \<open>The channels after the payload, each filled from its own random byte.\<close>

function trailing_loop ::
  "array_kind \<Rightarrow> (nat \<Rightarrow> byte) \<Rightarrow> int \<Rightarrow> nat \<Rightarrow> cursor \<Rightarrow> cursor" where
  "trailing_loop k rnd bitsTaken channelsLen st =
     (if channelId st < channelsLen
      then let randomByte = uint (rnd (draws st));
               bitsTakenMask = 2 ^ nat bitsTaken - 1
           in trailing_loop k rnd bitsTaken channelsLen
                (writeChannel k (randomByte AND bitsTakenMask) bitsTaken
                   (st \<lparr> draws := draws st + 1 \<rparr>))
      else st)"
  by pat_completeness auto
termination
  by (relation "measure (\<lambda>(k, rnd, bitsTaken, channelsLen, st). channelsLen - channelId st)")
     (auto simp: writeChannel_def Let_def)

declare trailing_loop.simps [simp del]

text \<open>
  \<^verbatim>\<open>hideBlob\<close>, up to and including the check of the cursor against the array
  length. The result pairs the outcome with the image as the call leaves it, since a throw
  does not undo earlier stores. What follows in the source (writing the array to the
  canvas, reading it back for comparison, exporting a blob and resetting the image) is the
  rendering collaborator's part and is not modelled.
\<close>

definition hideBlob ::
  "(nat \<Rightarrow> byte) \<Rightarrow> byte list \<Rightarrow> int \<Rightarrow> image_data \<Rightarrow> (error + unit) \<times> image_data" where
  "hideBlob rnd hData bitsTaken img =
     (let chs = channels img;
          channelsLen = length chs;
          hDataLen = int (length hData) in
      case validateBits bitsTaken of Inl e \<Rightarrow> (Inl e, img) | Inr _ \<Rightarrow>
      case calcCapacity img bitsTaken of Inl e \<Rightarrow> (Inl e, img) | Inr c \<Rightarrow>
      let cap = bytes c in
      if hDataLen > cap then (Inl CannotHideError, img) else
      let st = \<lparr> arr = chs, channelId = 0, buf = 0, bufBits = 0, draws = 0 \<rparr>;
          st = header_loop (kind img) bitsTaken st;
          st = hide_bytes (kind img) bitsTaken hData st in
      case flush_leftovers (kind img) rnd bitsTaken st of
        Inl e \<Rightarrow> (Inl e, img \<lparr> channels := arr st \<rparr>)
      | Inr st \<Rightarrow>
          let st = trailing_loop (kind img) rnd bitsTaken channelsLen st in
          if channelId st \<noteq> channelsLen
          then (Inl PixelLengthError, img \<lparr> channels := arr st \<rparr>)
          else (Inr (), img \<lparr> channels := arr st \<rparr>))"

subsection \<open>revealBlob\<close>

record reader =
  rbuf :: int
  rbufBits :: int
  out :: "byte list"
  outPos :: nat

text \<open>
  The body of the loop of \<^verbatim>\<open>revealBlob\<close> after the alpha skip, given the element
  \<open>cur\<close> read at the channel; \<^verbatim>\<open>out\<close> is a \<^verbatim>\<open>Uint8Array\<close>.
\<close>

definition reveal_step :: "int \<Rightarrow> int \<Rightarrow> int option \<Rightarrow> reader \<Rightarrow> reader" where
  "reveal_step bitsTaken msk cur st =
     (let b = push_bit (shift_count bitsTaken) (rbuf st) OR (to_int32 cur AND msk);
          bb = rbufBits st + bitsTaken
      in if bb \<ge> 8
         then let leftBits = bb - 8
              in \<lparr> rbuf = b AND (2 ^ nat leftBits - 1),
                   rbufBits = leftBits,
                   out = elem_set Uint8Array (out st) (outPos st)
                           (drop_bit (shift_count leftBits) b),
                   outPos = outPos st + 1 \<rparr>
         else st \<lparr> rbuf := b, rbufBits := bb \<rparr>)"

text \<open>
  The loop itself; \<open>cid\<close> is the loop variable \<^verbatim>\<open>channelId\<close>, which the body
  advances once more at an alpha channel.
\<close>

function reveal_loop :: "byte list \<Rightarrow> int \<Rightarrow> int \<Rightarrow> nat \<Rightarrow> reader \<Rightarrow> reader" where
  "reveal_loop chs bitsTaken msk cid st =
     (if cid < length chs
      then let cid = (if isAlpha cid then cid + 1 else cid);
               st = reveal_step bitsTaken msk (elem_get chs cid) st
           in reveal_loop chs bitsTaken msk (cid + 1) st
      else st)"
  by pat_completeness auto
termination
  by (relation "measure (\<lambda>(chs, bitsTaken, msk, cid, st). length chs - cid)") auto

declare reveal_loop.simps [simp del]

definition revealBlob :: "image_data \<Rightarrow> error + byte list" where
  "revealBlob img =
     (let chs = channels img in
      case revealBitsTaken img of Inl e \<Rightarrow> Inl e | Inr bitsTaken \<Rightarrow>
      case calcCapacity img bitsTaken of Inl e \<Rightarrow> Inl e | Inr c \<Rightarrow>
      let msk = 2 ^ nat bitsTaken - 1 in
      case new_array (bytes c) of Inl e \<Rightarrow> Inl e | Inr out0 \<Rightarrow>
      Inr (out (reveal_loop chs bitsTaken msk 4
                  \<lparr> rbuf = 0, rbufBits = 0, out = out0, outPos = 0 \<rparr>)))"

subsection \<open>hide and reveal\<close>

definition ENCRYPTED_METADATA_SIZE :: int where
  "ENCRYPTED_METADATA_SIZE = 28"

definition hide ::
  "text_coder \<Rightarrow> aead \<Rightarrow> (nat \<Rightarrow> byte) \<Rightarrow> RawFile \<Rightarrow> byte list \<Rightarrow> int \<Rightarrow> image_data
     \<Rightarrow> (error + unit) \<times> image_data" where
  "hide tc ae rnd rawFile key bitsTaken img =
     (case calcCapacity img bitsTaken of Inl e \<Rightarrow> (Inl e, img) | Inr c \<Rightarrow>
      let cap = bytes c in
      case packWithPadding tc rawFile (cap - ENCRYPTED_METADATA_SIZE) of
        Inl e \<Rightarrow> (Inl e, img)
      | Inr packed \<Rightarrow>
          case encrypt ae key packed of Inl e \<Rightarrow> (Inl e, img) | Inr ciphertext \<Rightarrow>
          if int (length ciphertext) \<noteq> cap then (Inl EncryptedBlobError, img)
          else hideBlob rnd ciphertext bitsTaken img)"


text \<open>
  A provider with the shape of the AES-GCM contract (12 bytes before and 16 bytes after a
  transformed plaintext), for evaluation at concrete inputs.
\<close>

definition shape_aead :: aead where
  "shape_aead =
     \<lparr> encrypt = (\<lambda>key p. if length key = 32
                             then Inr (replicate 12 7 @ map (\<lambda>b. b + 1) p @ replicate 16 9)
                             else Inl AeadError),
       decrypt = (\<lambda>key c. if length key = 32 \<and> 28 \<le> length c
                             then Inr (map (\<lambda>b. b - 1) (take (length c - 28) (drop 12 c)))
                             else Inl AeadError) \<rparr>"

text \<open>The four bytes of a length field, most significant first.\<close>

definition u32be :: "nat \<Rightarrow> byte list" where
  "u32be v = [of_nat (v div 2 ^ 24), of_nat (v div 2 ^ 16), of_nat (v div 2 ^ 8), of_nat v]"

section \<open>Notions used in the proofs\<close>

text \<open>
  The cursor of \<^verbatim>\<open>hideBlob\<close> only rests on colour channels. \<open>pos s\<close> is the index
  of the \<open>s\<close>-th colour channel of the array (0, 1, 2, 4, 5, 6, 8, ...), and \<open>writes\<close>
  is a run of \<^verbatim>\<open>writeChannel\<close> calls, each given as a pair of value and width.
\<close>

definition pos :: "nat \<Rightarrow> nat" where
  "pos s = s + s div 3"

definition writes :: "array_kind \<Rightarrow> (int \<times> int) list \<Rightarrow> cursor \<Rightarrow> cursor" where
  "writes k ws st = fold (\<lambda>w. writeChannel k (fst w) (snd w)) ws st"

text \<open>Bit strings, most significant bit first: their value, and the \<open>n\<close> low bits of a number.\<close>

definition val :: "bool list \<Rightarrow> int" where
  "val bs = horner_sum of_bool 2 (rev bs)"

definition bits_of :: "nat \<Rightarrow> int \<Rightarrow> bool list" where
  "bits_of n v = map (bit v) (rev [0..<n])"

definition byte_bits :: "byte \<Rightarrow> bool list" where
  "byte_bits w = bits_of 8 (uint w)"

text \<open>The three header writes for a given \<open>bitsTaken\<close>, and the state \<^verbatim>\<open>hideBlob\<close> starts in.\<close>

definition hdr :: "int \<Rightarrow> (int \<times> int) list" where
  "hdr b = [(readBit (b - 1) 5, 1), (readBit (b - 1) 6, 1), (readBit (b - 1) 7, 1)]"

definition start_cursor :: "byte list \<Rightarrow> cursor" where
  "start_cursor chs = \<lparr> arr = chs, channelId = 0, buf = 0, bufBits = 0, draws = 0 \<rparr>"

text \<open>
  One step of the payload loop, on a bit: extend the buffer, and write it out when it holds
  \<open>bitsTaken\<close> bits.
\<close>

definition push_hidden :: "array_kind \<Rightarrow> int \<Rightarrow> bool \<Rightarrow> cursor \<Rightarrow> cursor" where
  "push_hidden k b x st =
     (if bufBits st + 1 = b
      then (writeChannel k (2 * buf st + of_bool x) b st) \<lparr> buf := 0, bufBits := 0 \<rparr>
      else st \<lparr> buf := 2 * buf st + of_bool x, bufBits := bufBits st + 1 \<rparr>)"

text \<open>
  Cutting a bit string into pieces of \<open>n\<close> bits, starting from a pending piece \<open>P\<close>: the
  full pieces and the piece left over. And the regrouping done on reading: pieces are
  appended to the pending bits, and 8 bits are taken off the front whenever there are at
  least 8.
\<close>

fun chunks :: "nat \<Rightarrow> 'a list \<Rightarrow> 'a list \<Rightarrow> 'a list list \<times> 'a list" where
  "chunks n P [] = ([], P)"
| "chunks n P (x # xs) =
     (if length P + 1 = n
      then ((P @ [x]) # fst (chunks n [] xs), snd (chunks n [] xs))
      else chunks n (P @ [x]) xs)"






section \<open>Capacity\<close>

lemma validateBits_ok: "1 \<le> b \<Longrightarrow> b \<le> 8 \<Longrightarrow> validateBits b = Inr ()"
  by (simp add: validateBits_def)

lemma floor_rat_div8: "\<lfloor>(of_int k :: rat) / 8\<rfloor> = k div 8"
  using floor_divide_of_int_eq [of k 8, where ?'a = rat] by simp

lemma calcCapacity_pixels:
  assumes "1 \<le> b" "b \<le> 8" "length (channels img) = 4 * n"
  shows "calcCapacity img b =
           Inr \<lparr> bits = of_int ((int n - 1) * 3 * b), bytes = ((int n - 1) * 3 * b) div 8 \<rparr>"
proof -
  have p: "(of_int (int (length (channels img)) - 4) :: rat) / of_int 4 * 3 * of_int b
             = of_int ((int n - 1) * 3 * b)"
    using assms(3) by simp
  show ?thesis using assms(1,2)
    unfolding calcCapacity_def Let_def p floor_rat_div8
    by (simp add: validateBits_def)
qed

text \<open>
  C2. For a channel array whose length \<open>L\<close> is a multiple of 4 and \<open>bitsTaken = b\<close> in
  \<open>[1, 8]\<close>, \<^verbatim>\<open>calcCapacity\<close> returns \<open>bits = ((L - 4) / 4) * 3 * b\<close> and
  \<open>bytes = floor (bits / 8)\<close>; for \<open>L = 16\<close> this is \<open>{bits: 9, bytes: 1}\<close> at
  \<open>b = 1\<close> and \<open>{bits: 72, bytes: 9}\<close> at \<open>b = 8\<close>.
\<close>

theorem calcCapacity_formula:
  assumes "1 \<le> b" and "b \<le> 8" and "4 dvd length (channels img)"
  shows "calcCapacity img b =
           Inr \<lparr> bits = of_int (((int (length (channels img)) - 4) div 4) * 3 * b),
                 bytes = (((int (length (channels img)) - 4) div 4) * 3 * b) div 8 \<rparr>
         \<and> (length (channels img) = 16 \<longrightarrow>
              (b = 1 \<longrightarrow> calcCapacity img b = Inr \<lparr> bits = 9, bytes = 1 \<rparr>) \<and>
              (b = 8 \<longrightarrow> calcCapacity img b = Inr \<lparr> bits = 72, bytes = 9 \<rparr>))"
proof -
  from assms(3) obtain n where n: "length (channels img) = 4 * n" by (auto elim: dvdE)
  have d: "(int (length (channels img)) - 4) div 4 = int n - 1"
    using n by simp
  have g: "calcCapacity img b =
      Inr \<lparr> bits = of_int (((int (length (channels img)) - 4) div 4) * 3 * b),
            bytes = (((int (length (channels img)) - 4) div 4) * 3 * b) div 8 \<rparr>"
    unfolding d using calcCapacity_pixels [OF assms(1,2) n] .
  show ?thesis
  proof (intro conjI impI)
    show "calcCapacity img b =
      Inr \<lparr> bits = of_int (((int (length (channels img)) - 4) div 4) * 3 * b),
            bytes = (((int (length (channels img)) - 4) div 4) * 3 * b) div 8 \<rparr>"
      by (rule g)
  next
    assume "length (channels img) = 16" "b = 1"
    with g show "calcCapacity img b = Inr \<lparr> bits = 9, bytes = 1 \<rparr>" by simp
  next
    assume "length (channels img) = 16" "b = 8"
    with g show "calcCapacity img b = Inr \<lparr> bits = 72, bytes = 9 \<rparr>" by simp
  qed
qed

theorem calcCapacity_formula_witness:
  "calcCapacity \<lparr> kind = Uint8Array, channels = replicate 16 0 \<rparr> 1
      = Inr \<lparr> bits = 9, bytes = 1 \<rparr>
   \<and> calcCapacity \<lparr> kind = Uint8Array, channels = replicate 16 0 \<rparr> 8
      = Inr \<lparr> bits = 72, bytes = 9 \<rparr>
   \<and> calcCapacity \<lparr> kind = Uint8Array, channels = [] \<rparr> 3
      = Inr \<lparr> bits = - 9, bytes = - 2 \<rparr>"
  using calcCapacity_formula [of 1 "\<lparr> kind = Uint8Array, channels = replicate 16 0 \<rparr>"]
        calcCapacity_formula [of 8 "\<lparr> kind = Uint8Array, channels = replicate 16 0 \<rparr>"]
        calcCapacity_formula [of 3 "\<lparr> kind = Uint8Array, channels = [] \<rparr>"]
  by simp

section \<open>The header\<close>

lemma readBit_lsb: "readBit v 7 = v mod 2"
  by (simp add: readBit_def shift_count_def and_one_eq)

lemma header_value_cases:
  fixes x y z :: int
  shows "1 + (push_bit 2 (x mod 2) OR push_bit 1 (y mod 2) OR z mod 2)
           = 1 + (4 * (x mod 2) + 2 * (y mod 2) + z mod 2)"
proof -
  have "x mod 2 = 0 \<or> x mod 2 = 1" "y mod 2 = 0 \<or> y mod 2 = 1" "z mod 2 = 0 \<or> z mod 2 = 1"
    by presburger+
  then show ?thesis
    by (elim disjE) simp_all
qed

lemma revealBitsTaken_value:
  "revealBitsTaken img =
     Inr (1 + (4 * (to_int32 (elem_get (channels img) 0) mod 2)
             + 2 * (to_int32 (elem_get (channels img) 1) mod 2)
             + to_int32 (elem_get (channels img) 2) mod 2))"
proof -
  let ?x = "to_int32 (elem_get (channels img) 0)"
  let ?y = "to_int32 (elem_get (channels img) 1)"
  let ?z = "to_int32 (elem_get (channels img) 2)"
  let ?v = "1 + (4 * (?x mod 2) + 2 * (?y mod 2) + ?z mod 2)"
  have "0 \<le> ?x mod 2" "?x mod 2 \<le> 1" "0 \<le> ?y mod 2" "?y mod 2 \<le> 1"
       "0 \<le> ?z mod 2" "?z mod 2 \<le> 1"
    by presburger+
  then have "1 \<le> ?v" "?v \<le> 8" by linarith+
  then have "validateBits ?v = Inr ()" by (rule validateBits_ok)
  then show ?thesis
    unfolding revealBitsTaken_def Let_def readBit_lsb header_value_cases
    by simp
qed

text \<open>
  C8. The result of \<^verbatim>\<open>revealBitsTaken\<close> depends only on channels 0, 1 and 2: two
  images that agree there (element by element, an absent element counting as absent in
  both) give the same result, and storing any value into a channel with index at least 3
  does not change the result.
\<close>

theorem revealBitsTaken_depends_on_header:
  "((\<forall>i \<in> {0, 1, 2}. elem_get (channels a) i = elem_get (channels b) i)
       \<longrightarrow> revealBitsTaken a = revealBitsTaken b)
   \<and> (3 \<le> j \<longrightarrow> revealBitsTaken (img \<lparr> channels := (channels img)[j := v] \<rparr>)
                    = revealBitsTaken img)"
proof (intro conjI impI)
  assume "\<forall>i \<in> {0, 1, 2}. elem_get (channels a) i = elem_get (channels b) i"
  then show "revealBitsTaken a = revealBitsTaken b"
    by (simp add: revealBitsTaken_value)
next
  assume "3 \<le> j"
  then have "elem_get ((channels img)[j := v]) i = elem_get (channels img) i" if "i < 3" for i
    using that by (simp add: elem_get_def)
  then show "revealBitsTaken (img \<lparr> channels := (channels img)[j := v] \<rparr>) = revealBitsTaken img"
    by (simp add: revealBitsTaken_value)
qed

theorem revealBitsTaken_depends_on_header_witness:
  "revealBitsTaken \<lparr> kind = Uint8Array, channels = [1, 0, 1, 0, 7, 7, 7, 0] \<rparr>
     = revealBitsTaken \<lparr> kind = Uint8ClampedArray, channels = [1, 0, 1, 255] \<rparr>
   \<and> revealBitsTaken \<lparr> kind = Uint8Array, channels = [1, 0, 1, 0, 7, 7, 7, 0] \<rparr> = Inr 6
   \<and> revealBitsTaken \<lparr> kind = Uint8Array, channels = [1, 0, 1, 0, 7, 9, 7, 0] \<rparr> = Inr 6"
proof -
  let ?a = "\<lparr> kind = Uint8Array, channels = [1, 0, 1, 0, 7, 7, 7, 0] \<rparr>"
  let ?b = "\<lparr> kind = Uint8ClampedArray, channels = [1, 0, 1, 255] \<rparr>"
  have v: "revealBitsTaken ?a = Inr 6"
    by (simp add: revealBitsTaken_value elem_get_def)
  have "revealBitsTaken ?a = revealBitsTaken ?b
        \<and> revealBitsTaken (?a \<lparr> channels := (channels ?a)[5 := 9] \<rparr>) = revealBitsTaken ?a"
    using revealBitsTaken_depends_on_header [of ?a ?b 5 ?a 9]
    by (simp add: elem_get_def)
  with v show ?thesis by simp
qed

text \<open>
  C10. On every channel array, whatever its length and contents,
  \<^verbatim>\<open>revealBitsTaken\<close> returns a value and never throws: the value is 1 plus the
  3-bit number whose bits, most significant first, are the least significant bits of
  channels 0, 1 and 2 (an absent channel reads as 0), so it lies in \<open>[1, 8]\<close> and the
  validation that follows cannot fail.
\<close>

theorem revealBitsTaken_total:
  "\<exists>v. revealBitsTaken img = Inr v \<and> 1 \<le> v \<and> v \<le> 8
       \<and> v = 1 + (4 * (to_int32 (elem_get (channels img) 0) mod 2)
                 + 2 * (to_int32 (elem_get (channels img) 1) mod 2)
                 + to_int32 (elem_get (channels img) 2) mod 2)
       \<and> validateBits v = Inr ()"
proof -
  let ?x = "to_int32 (elem_get (channels img) 0)"
  let ?y = "to_int32 (elem_get (channels img) 1)"
  let ?z = "to_int32 (elem_get (channels img) 2)"
  let ?v = "1 + (4 * (?x mod 2) + 2 * (?y mod 2) + ?z mod 2)"
  have "0 \<le> ?x mod 2" "?x mod 2 \<le> 1" "0 \<le> ?y mod 2" "?y mod 2 \<le> 1"
       "0 \<le> ?z mod 2" "?z mod 2 \<le> 1"
    by presburger+
  then have r: "1 \<le> ?v" "?v \<le> 8" by linarith+
  moreover from r have "validateBits ?v = Inr ()" by (rule validateBits_ok)
  moreover have "revealBitsTaken img = Inr ?v" by (rule revealBitsTaken_value)
  ultimately show ?thesis by blast
qed

section \<open>The packed file\<close>

lemma replicate4: "replicate 4 x = [x, x, x, x]"
  by (simp add: numeral_eq_Suc)

lemma upd4: "[a, b, c, d][0 := w, 1 := x, 2 := y, 3 := z] = [w, x, y, z]"
  by (simp add: numeral_2_eq_2 numeral_3_eq_3)

lemma setUint32_zeros:
  assumes "length pre = off"
  shows "setUint32 (pre @ replicate 4 0) off v = Inr (pre @ u32be v)"
proof -
  have "(pre @ [0, 0, 0, 0])[off := a, off + 1 := b, off + 2 := c, off + 3 := d]
          = pre @ [0, 0, 0, 0][0 := a, 1 := b, 2 := c, 3 := d]" for a b c d :: byte
    using assms by (simp add: list_update_append)
  then show ?thesis
    using assms unfolding setUint32_def replicate4 u32be_def upd4 [symmetric]
    by simp
qed





lemma createHeader_eq:
  assumes "1 \<le> length (encode tc (name f))" "length (encode tc (name f)) \<le> 255"
  shows "createHeader tc f =
           Inr (of_nat (length (encode tc (name f))) # encode tc (name f) @ u32be (size f))"
proof -
  let ?nb = "encode tc (name f)"
  let ?n = "length ?nb"
  have "replicate (1 + ?n + 4) (0::byte) = (replicate 1 0 @ replicate ?n 0) @ replicate 4 0"
    by (simp only: replicate_add)
  then have r: "replicate (1 + ?n + 4) (0::byte) = 0 # replicate ?n 0 @ replicate 4 0"
    by simp
  have a: "new_array (int (1 + ?n + 4)) = Inr (0 # replicate ?n 0 @ replicate 4 0)"
    unfolding new_array_def nat_int r by simp
  have b: "setUint8 (0 # replicate ?n 0 @ replicate 4 0) 0 ?n
             = Inr (of_nat ?n # replicate ?n 0 @ replicate 4 0)"
    by (simp add: setUint8_def)
  have c: "array_set (of_nat ?n # replicate ?n 0 @ replicate 4 0) ?nb (0 + 1)
             = Inr (of_nat ?n # ?nb @ replicate 4 0)"
    by (simp add: array_set_def)
  have d: "setUint32 (of_nat ?n # ?nb @ replicate 4 0) (0 + 1 + ?n) (size f)
             = Inr (of_nat ?n # ?nb @ u32be (size f))"
    using setUint32_zeros [of "of_nat ?n # ?nb" "0 + 1 + ?n" "size f"] by simp
  have e: "\<not> (?n < 1 \<or> ?n > 255)" using assms by auto
  show ?thesis
    by (simp only: createHeader_def Let_def utf8ToBytes_def if_not_P [OF e] a b c d sum.case)
qed

lemma createHeader_error:
  assumes "length (encode tc (name f)) < 1 \<or> length (encode tc (name f)) > 255"
  shows "createHeader tc f = Inl FileNameError"
  unfolding createHeader_def Let_def utf8ToBytes_def if_P [OF assms] ..

lemma length_u32be: "length (u32be v) = 4"
  by (simp add: u32be_def)

lemma pack_eq:
  assumes "createHeader tc f = Inr header" "size f = length (data f)"
  shows "pack tc f = Inr (header @ data f)"
proof -
  have a: "new_array (int (length header + size f))
             = Inr (replicate (length header) 0 @ replicate (length (data f)) 0)"
    unfolding new_array_def nat_int assms(2) by (simp add: replicate_add)
  have b: "array_set (replicate (length header) 0 @ replicate (length (data f)) 0) header 0
             = Inr (header @ replicate (length (data f)) 0)"
    by (simp add: array_set_def)
  have c: "array_set (header @ replicate (length (data f)) 0) (data f) (length header)
             = Inr (header @ data f)"
    by (simp add: array_set_def)
  show ?thesis
    by (simp only: pack_def assms(1) a b c sum.case)
qed

lemma pack_error:
  assumes "createHeader tc f = Inl e"
  shows "pack tc f = Inl e"
  unfolding pack_def assms by simp

lemma packWithPadding_eq:
  assumes "pack tc f = Inr packed"
  shows "packWithPadding tc f requiredLength =
           (if requiredLength < int (length packed) then Inl RequiredLengthError
            else Inr (packed @ replicate (nat (requiredLength - int (length packed))) 0))"
proof (cases "requiredLength < int (length packed)")
  case True
  then show ?thesis
    unfolding packWithPadding_def assms Let_def by simp
next
  case False
  let ?d = "nat (requiredLength - int (length packed))"
  have n: "nat (int (length packed) + (requiredLength - int (length packed))) = length packed + ?d"
    using False by simp
  have a: "new_array (int (length packed) + (requiredLength - int (length packed)))
             = Inr (replicate (length packed) 0 @ replicate ?d 0)"
    unfolding new_array_def n using False by (simp add: replicate_add)
  have b: "array_set (replicate (length packed) 0 @ replicate ?d 0) packed 0
             = Inr (packed @ replicate ?d 0)"
    by (simp add: array_set_def)
  show ?thesis
    using False by (simp only: packWithPadding_def assms Let_def a b sum.case) simp
qed

lemma fromPacked_cases:
  "fromPacked tc packed =
     (if packed = [] then Inl RangeError
      else if unat (packed ! 0) = 0 then Inl EmptyNameError
      else if length packed < unat (packed ! 0) + 5 then Inl RangeError
      else (case getUint32 packed (1 + unat (packed ! 0)) of
              Inl e \<Rightarrow> Inl e
            | Inr fsize \<Rightarrow>
                Inr (new_RawFile (take fsize (drop (unat (packed ! 0) + 5) packed))
                                 (decode tc (take (unat (packed ! 0)) (drop 1 packed))))))"
proof (cases "packed = []")
  case True
  then show ?thesis by (simp add: fromPacked_def getUint8_def)
next
  case ne: False
  then have g: "getUint8 packed 0 = Inr (unat (packed ! 0))"
    by (cases packed) (simp_all add: getUint8_def)
  show ?thesis
  proof (cases "unat (packed ! 0) = 0")
    case True
    then show ?thesis using ne unfolding fromPacked_def Let_def g by simp
  next
    case nz: False
    show ?thesis
    proof (cases "length packed < unat (packed ! 0) + 5")
      case True
      then have "getUint32 packed (0 + 1 + unat (packed ! 0)) = Inl RangeError"
        by (simp add: getUint32_def)
      then show ?thesis using ne nz True unfolding fromPacked_def Let_def g by simp
    next
      case False
      then show ?thesis using ne nz unfolding fromPacked_def Let_def g
        by (simp add: subarray_def bytesToUtf8_def add.commute split: sum.splits)
    qed
  qed
qed

lemma new_RawFile_sel:
  "data (new_RawFile d n) = d" "size (new_RawFile d n) = length d"
  "n \<noteq> [] \<Longrightarrow> name (new_RawFile d n) = n"
  by (simp_all add: new_RawFile_def Let_def)


lemma pack_new_RawFile:
  assumes "1 \<le> length (encode tc (name (new_RawFile content nm)))"
      and "length (encode tc (name (new_RawFile content nm))) \<le> 255"
  shows "pack tc (new_RawFile content nm)
           = Inr (of_nat (length (encode tc (name (new_RawFile content nm))))
                  # encode tc (name (new_RawFile content nm)) @ u32be (length content) @ content)"
  using pack_eq [OF createHeader_eq [OF assms]]
  by (simp add: new_RawFile_sel)



lemma ascii_length: "length (encode ascii_coder s) = length s"
  by (simp add: ascii_coder_def)


lemma pack_layout:
  assumes "nm \<noteq> []" and "1 \<le> length (encode tc nm)" and "length (encode tc nm) \<le> 255"
  shows "pack tc (new_RawFile content nm)
           = Inr (of_nat (length (encode tc nm)) # encode tc nm @ u32be (length content) @ content)"
  using pack_new_RawFile [of tc content nm] assms by (simp add: new_RawFile_sel)


lemma pack_a_txt:
  "pack ascii_coder (new_RawFile [1, 2, 3] ''a.txt'')
     = Inr [5, 97, 46, 116, 120, 116, 0, 0, 0, 3, 1, 2, 3]"
  using pack_layout [of "''a.txt''" ascii_coder "[1, 2, 3]"]
  by (simp add: ascii_coder_def u32be_def)





text \<open>
  C3, as the code has it. \<^verbatim>\<open>fromPacked\<close> fails on the empty buffer (the read of
  \<open>name_len\<close> leaves the view), fails with the empty-name error when the first byte is 0,
  and fails when the buffer is shorter than \<open>name_len + 5\<close> (the read of the length field
  leaves the view). In every other case it succeeds: the content is what
  \<^verbatim>\<open>subarray\<close> finds of the \<open>content_len\<close> bytes after the length field, so a
  \<open>content_len\<close> that runs past the end of the buffer gives a shorter content, not an
  error.
\<close>

theorem fromPacked_outcome:
  "fromPacked tc packed =
     (if packed = [] then Inl RangeError
      else if unat (packed ! 0) = 0 then Inl EmptyNameError
      else if length packed < unat (packed ! 0) + 5 then Inl RangeError
      else Inr (new_RawFile
                  (take (unat (packed ! (unat (packed ! 0) + 1)) * 2 ^ 24
                         + unat (packed ! (unat (packed ! 0) + 2)) * 2 ^ 16
                         + unat (packed ! (unat (packed ! 0) + 3)) * 2 ^ 8
                         + unat (packed ! (unat (packed ! 0) + 4)))
                     (drop (unat (packed ! 0) + 5) packed))
                  (decode tc (take (unat (packed ! 0)) (drop 1 packed)))))"
proof -
  have i: "1 + n = n + 1" "n + 1 + 1 = n + 2" "n + 1 + 2 = n + 3" "n + 1 + 3 = n + 4"
          "n + 1 + 4 = n + 5" for n :: nat
    by simp_all
  have "getUint32 packed (1 + unat (packed ! 0))
          = Inr (unat (packed ! (unat (packed ! 0) + 1)) * 2 ^ 24
                         + unat (packed ! (unat (packed ! 0) + 2)) * 2 ^ 16
                         + unat (packed ! (unat (packed ! 0) + 3)) * 2 ^ 8
                         + unat (packed ! (unat (packed ! 0) + 4)))"
    if "\<not> length packed < unat (packed ! 0) + 5"
  proof -
    from that have "unat (packed ! 0) + 5 \<le> length packed" by simp
    then show ?thesis
      unfolding getUint32_def i by (simp only: if_True)
  qed
  then show ?thesis
    unfolding fromPacked_cases by simp
qed

theorem fromPacked_outcome_witness:
  "fromPacked ascii_coder [] = Inl RangeError
   \<and> fromPacked ascii_coder [0, 97, 0, 0, 0, 0] = Inl EmptyNameError
   \<and> fromPacked ascii_coder [2, 97, 98, 0, 0] = Inl RangeError
   \<and> fromPacked ascii_coder [1, 97, 0, 0, 0, 2, 98, 99, 0] 
       = Inr \<lparr> data = [98, 99], name = ''a'', size = 2 \<rparr>
   \<and> fromPacked ascii_coder [1, 97, 0, 0, 1, 0, 98, 99]
       = Inr \<lparr> data = [98, 99], name = ''a'', size = 2 \<rparr>"
  using fromPacked_outcome [of ascii_coder "[]"]
        fromPacked_outcome [of ascii_coder "[0, 97, 0, 0, 0, 0]"]
        fromPacked_outcome [of ascii_coder "[2, 97, 98, 0, 0]"]
        fromPacked_outcome [of ascii_coder "[1, 97, 0, 0, 0, 2, 98, 99, 0]"]
        fromPacked_outcome [of ascii_coder "[1, 97, 0, 0, 1, 0, 98, 99]"]
  by (simp add: new_RawFile_def ascii_coder_def char_of_eq_iff)

text \<open>
  The bound on the content is not checked by \<^verbatim>\<open>fromPacked\<close>: in the 7-byte buffer
  below the name length is 1 and the length field says 5, so \<open>1 + 5 + 5 = 11\<close> exceeds the
  buffer length, and the call returns the one content byte that is there.
\<close>

theorem fromPacked_truncates_counterexample:
  "getUint8 [1, 97, 0, 0, 0, 5, 98] 0 = Inr 1
   \<and> getUint32 [1, 97, 0, 0, 0, 5, 98] 2 = Inr 5
   \<and> (1::nat) + 5 + 5 > length [1, 97, 0, 0, 0, 5, 98 :: byte]
   \<and> fromPacked ascii_coder [1, 97, 0, 0, 0, 5, 98]
       = Inr \<lparr> data = [98], name = ''a'', size = 1 \<rparr>"
  by (simp add: fromPacked_cases getUint8_def getUint32_def new_RawFile_def ascii_coder_def
        char_of_eq_iff)

text \<open>
  C5, as the code has it. The constructor replaces an empty name by
  \<^verbatim>\<open>file-<content length>.file\<close>. \<^verbatim>\<open>pack\<close> fails with the file-name error
  exactly when the encoding of the file's name (after that replacement) is empty or longer
  than 255 bytes; otherwise it succeeds with the layout \<open>name_len, name, content_len,
  content\<close>, of total size \<open>1 + name_len + 4 + content_len\<close>.
\<close>

theorem pack_outcome:
  "name (new_RawFile content nm)
      = (if nm = [] then ''file-'' @ decimal (length content) @ ''.file'' else nm)
   \<and> pack tc (new_RawFile content nm) =
       (if length (encode tc (name (new_RawFile content nm))) < 1
           \<or> length (encode tc (name (new_RawFile content nm))) > 255
        then Inl FileNameError
        else Inr (of_nat (length (encode tc (name (new_RawFile content nm))))
                  # encode tc (name (new_RawFile content nm))
                  @ u32be (length content) @ content))
   \<and> (\<forall>packed. pack tc (new_RawFile content nm) = Inr packed \<longrightarrow>
         length packed = 1 + length (encode tc (name (new_RawFile content nm))) + 4
                           + length content)"
proof -
  let ?f = "new_RawFile content nm"
  let ?n = "length (encode tc (name ?f))"
  have a: "name ?f = (if nm = [] then ''file-'' @ decimal (length content) @ ''.file'' else nm)"
    by (simp add: new_RawFile_def Let_def)
  have b: "pack tc ?f =
       (if ?n < 1 \<or> ?n > 255 then Inl FileNameError
        else Inr (of_nat ?n # encode tc (name ?f) @ u32be (length content) @ content))"
  proof (cases "?n < 1 \<or> ?n > 255")
    case True
    then show ?thesis
      using pack_error [OF createHeader_error [of tc ?f]] by simp
  next
    case False
    then have "1 \<le> ?n" "?n \<le> 255" by linarith+
    then show ?thesis
      using False pack_new_RawFile [of tc content nm] by simp
  qed
  have c: "length packed = 1 + ?n + 4 + length content" if "pack tc ?f = Inr packed" for packed
    using that unfolding b by (auto simp: length_u32be split: if_splits)
  show ?thesis using a b c by blast
qed

theorem pack_outcome_witness:
  "pack ascii_coder (new_RawFile [7, 8] ''a.txt'') = Inr [5, 97, 46, 116, 120, 116, 0, 0, 0, 2, 7, 8]
   \<and> length [5, 97, 46, 116, 120, 116, 0, 0, 0, 2, 7, 8 :: byte] = 1 + 5 + 4 + 2
   \<and> pack ascii_coder (new_RawFile [7, 8] (replicate 256 CHR ''a'')) = Inl FileNameError
   \<and> name (new_RawFile [7, 8] []) = ''file-2.file''"
proof -
  have n: "name (new_RawFile [7, 8] ''a.txt'') = ''a.txt''"
    by (simp add: new_RawFile_def)
  have m: "name (new_RawFile [7, 8] (replicate 256 CHR ''a'')) = replicate 256 CHR ''a''"
    by (simp add: new_RawFile_def)
  show ?thesis
    using pack_outcome [of "[7, 8]" "''a.txt''" ascii_coder]
          pack_outcome [of "[7, 8]" "replicate 256 CHR ''a''" ascii_coder]
          pack_outcome [of "[7, 8]" "[]" ascii_coder]
    unfolding n m
    by (simp add: ascii_length u32be_def ascii_coder_def char_of_eq_iff)
qed

text \<open>
  A file constructed with the empty name packs without error: the constructor has replaced
  the name by \<^verbatim>\<open>file-0.file\<close>.
\<close>

theorem pack_empty_name_counterexample:
  "pack ascii_coder (new_RawFile [] [])
     = Inr [11, 102, 105, 108, 101, 45, 48, 46, 102, 105, 108, 101, 0, 0, 0, 0]"
proof -
  have n: "name (new_RawFile [] []) = ''file-0.file''"
    by (simp add: new_RawFile_def char_of_eq_iff)
  have e: "encode ascii_coder ''file-0.file''
             = [102, 105, 108, 101, 45, 48, 46, 102, 105, 108, 101]"
    by (simp add: ascii_coder_def)
  show ?thesis
    using pack_new_RawFile [of ascii_coder "[]" "[]"] unfolding n e
    by (simp add: u32be_def)
qed

section \<open>The channel cursor\<close>

lemma pos_mod4: "pos s mod 4 = s mod 3"
proof -
  have "s = 3 * (s div 3) + s mod 3" by simp
  then have "pos s = 4 * (s div 3) + s mod 3" unfolding pos_def by linarith
  moreover have "s mod 3 < 3" by simp
  ultimately show ?thesis by simp
qed

lemma pos_not_alpha: "\<not> isAlpha (pos s)"
proof -
  have "s mod 3 < 3" by simp
  then show ?thesis unfolding isAlpha_def pos_mod4 by simp
qed

lemma isAlpha_pos_succ: "isAlpha (pos s + 1) \<longleftrightarrow> s mod 3 = 2"
proof -
  have "(pos s + 1) mod 4 = (pos s mod 4 + 1) mod 4"
    by (rule mod_add_left_eq [symmetric])
  also have "\<dots> = (s mod 3 + 1) mod 4" by (simp only: pos_mod4)
  also have "\<dots> = s mod 3 + 1"
  proof -
    have "s mod 3 < 3" by simp
    then show ?thesis by simp
  qed
  finally show ?thesis unfolding isAlpha_def by auto
qed

lemma pos_Suc: "pos (Suc s) = (if isAlpha (pos s + 1) then pos s + 2 else pos s + 1)"
  unfolding isAlpha_pos_succ unfolding pos_def by (simp add: div_Suc mod_Suc)

lemma pos_mono: "s < t \<Longrightarrow> pos s < pos t"
  unfolding pos_def by (simp add: add_less_le_mono div_le_mono)

lemma pos_le_mono: "s \<le> t \<Longrightarrow> pos s \<le> pos t"
  unfolding pos_def by (simp add: add_mono div_le_mono)

lemma pos_3n: "pos (3 * n) = 4 * n"
  unfolding pos_def by simp

lemma pos_small: "pos 0 = 0" "pos 1 = 1" "pos 2 = 2" "pos 3 = 4"
  unfolding pos_def by simp_all

lemma writeChannel_channelId:
  "channelId st = pos s \<Longrightarrow> channelId (writeChannel k d nb st) = pos (Suc s)"
  by (simp add: writeChannel_def Let_def pos_Suc)

lemma writeChannel_fields [simp]:
  "buf (writeChannel k d nb st) = buf st"
  "bufBits (writeChannel k d nb st) = bufBits st"
  "draws (writeChannel k d nb st) = draws st"
  "length (arr (writeChannel k d nb st)) = length (arr st)"
  by (simp_all add: writeChannel_def Let_def elem_set_def)

lemma writeChannel_upd [simp]:
  "writeChannel k d nb (st \<lparr> buf := x \<rparr>) = (writeChannel k d nb st) \<lparr> buf := x \<rparr>"
  "writeChannel k d nb (st \<lparr> bufBits := y \<rparr>) = (writeChannel k d nb st) \<lparr> bufBits := y \<rparr>"
  "writeChannel k d nb (st \<lparr> draws := z \<rparr>) = (writeChannel k d nb st) \<lparr> draws := z \<rparr>"
  by (simp_all add: writeChannel_def Let_def)

lemma writeChannel_before:
  "i < channelId st \<Longrightarrow> arr (writeChannel k d nb st) ! i = arr st ! i"
  by (simp add: writeChannel_def Let_def elem_set_def)

lemma writeChannel_after:
  "channelId (writeChannel k d nb st) \<le> i \<Longrightarrow> arr (writeChannel k d nb st) ! i = arr st ! i"
  by (auto simp add: writeChannel_def Let_def elem_set_def split: if_splits)


lemma writeChannel_alpha:
  "isAlpha (channelId st + 1) \<Longrightarrow> channelId st + 1 < length (arr st) \<Longrightarrow>
     arr (writeChannel k d nb st) ! (channelId st + 1) = to_elem k 256"
  by (simp add: writeChannel_def Let_def elem_set_def)


lemma writes_Nil [simp]: "writes k [] st = st"
  by (simp add: writes_def)

lemma writes_Cons [simp]: "writes k (w # ws) st = writes k ws (writeChannel k (fst w) (snd w) st)"
  by (simp add: writes_def)

lemma writes_append: "writes k (ws @ vs) st = writes k vs (writes k ws st)"
  by (simp add: writes_def)

lemma writes_fields [simp]:
  "buf (writes k ws st) = buf st"
  "bufBits (writes k ws st) = bufBits st"
  "draws (writes k ws st) = draws st"
  "length (arr (writes k ws st)) = length (arr st)"
  by (induction ws arbitrary: st; simp)+

lemma writes_upd [simp]:
  "writes k ws (st \<lparr> buf := x \<rparr>) = (writes k ws st) \<lparr> buf := x \<rparr>"
  "writes k ws (st \<lparr> bufBits := y \<rparr>) = (writes k ws st) \<lparr> bufBits := y \<rparr>"
  "writes k ws (st \<lparr> draws := z \<rparr>) = (writes k ws st) \<lparr> draws := z \<rparr>"
  by (induction ws arbitrary: st; simp)+

lemma writes_channelId:
  "channelId st = pos s \<Longrightarrow> channelId (writes k ws st) = pos (s + length ws)"
proof (induction ws arbitrary: st s)
  case Nil
  then show ?case by simp
next
  case (Cons w ws)
  have "channelId (writeChannel k (fst w) (snd w) st) = pos (Suc s)"
    using Cons.prems by (rule writeChannel_channelId)
  from Cons.IH [OF this] show ?case by simp
qed

lemma writes_before:
  "channelId st = pos s \<Longrightarrow> i < pos s \<Longrightarrow> arr (writes k ws st) ! i = arr st ! i"
proof (induction ws arbitrary: st s)
  case Nil
  then show ?case by simp
next
  case (Cons w ws)
  have c: "channelId (writeChannel k (fst w) (snd w) st) = pos (Suc s)"
    using Cons.prems(1) by (rule writeChannel_channelId)
  have "i < pos (Suc s)" using Cons.prems(2) pos_mono [of s "Suc s"] by simp
  from Cons.IH [OF c this] have "arr (writes k (w # ws) st) ! i
      = arr (writeChannel k (fst w) (snd w) st) ! i" by simp
  also have "\<dots> = arr st ! i"
    using Cons.prems by (simp add: writeChannel_before)
  finally show ?case .
qed

lemma writes_after:
  "channelId st = pos s \<Longrightarrow> pos (s + length ws) \<le> i \<Longrightarrow> arr (writes k ws st) ! i = arr st ! i"
proof (induction ws arbitrary: st s)
  case Nil
  then show ?case by simp
next
  case (Cons w ws)
  have c: "channelId (writeChannel k (fst w) (snd w) st) = pos (Suc s)"
    using Cons.prems(1) by (rule writeChannel_channelId)
  have l: "pos (Suc s + length ws) \<le> i" using Cons.prems(2) by simp
  from Cons.IH [OF c l] have "arr (writes k (w # ws) st) ! i
      = arr (writeChannel k (fst w) (snd w) st) ! i" by simp
  also have "\<dots> = arr st ! i"
  proof (rule writeChannel_after)
    have "pos (Suc s) \<le> pos (Suc s + length ws)" by (rule pos_le_mono) simp
    with l show "channelId (writeChannel k (fst w) (snd w) st) \<le> i" unfolding c by simp
  qed
  finally show ?case .
qed


lemma writes_alpha:
  "channelId st = pos s \<Longrightarrow> pos s \<le> i \<Longrightarrow> i < pos (s + length ws) \<Longrightarrow> isAlpha i
     \<Longrightarrow> i < length (arr st) \<Longrightarrow> arr (writes k ws st) ! i = to_elem k 256"
proof (induction ws arbitrary: st s)
  case Nil
  then show ?case by simp
next
  case (Cons w ws)
  let ?st = "writeChannel k (fst w) (snd w) st"
  have c: "channelId ?st = pos (Suc s)"
    using Cons.prems(1) by (rule writeChannel_channelId)
  show ?case
  proof (cases "i < pos (Suc s)")
    case True
    have "i \<noteq> pos s" using Cons.prems(4) pos_not_alpha by auto
    with True Cons.prems(2) have i: "i = pos s + 1" "isAlpha (pos s + 1)"
      using Cons.prems(4) by (auto simp: pos_Suc split: if_splits)
    have "arr (writes k (w # ws) st) ! i = arr ?st ! i"
      using writes_before [OF c True, of k ws] by simp
    also have "\<dots> = to_elem k 256"
      using writeChannel_alpha [of st k "fst w" "snd w"] i Cons.prems(1,5) by simp
    finally show ?thesis .
  next
    case False
    then have "pos (Suc s) \<le> i" by simp
    moreover have "i < pos (Suc s + length ws)" using Cons.prems(3) by simp
    moreover have "i < length (arr ?st)" using Cons.prems(5) by simp
    ultimately show ?thesis
      using Cons.IH [OF c _ _ Cons.prems(4)] by simp
  qed
qed

section \<open>Bit strings\<close>

lemma val_Nil [simp]: "val [] = 0"
  by (simp add: val_def)

lemma val_append: "val (xs @ ys) = val xs * 2 ^ length ys + val ys"
  by (simp add: val_def horner_sum_append)

lemma val_snoc: "val (xs @ [x]) = 2 * val xs + of_bool x"
  by (simp add: val_append val_def)



lemma length_bits_of [simp]: "length (bits_of n v) = n"
  by (simp add: bits_of_def)

lemma val_bits_of: "val (bits_of n v) = take_bit n v"
  by (simp add: val_def bits_of_def rev_map horner_sum_bit_eq_take_bit)

lemma val_bits_of_id: "0 \<le> v \<Longrightarrow> v < 2 ^ n \<Longrightarrow> val (bits_of n v) = v"
  by (simp add: val_bits_of take_bit_int_eq_self)



lemma or_bit: "push_bit 1 (a::int) OR of_bool x = 2 * a + of_bool x"
  by (cases x) (simp_all add: or_one_eq)

lemma and1: "drop_bit n (v::int) AND 1 = of_bool (bit v n)"
  by (simp add: and_one_eq bit_iff_odd_drop_bit mod_2_eq_odd)

section \<open>Cutting and regrouping bit strings\<close>

lemma chunks_concat: "concat (fst (chunks n P xs)) @ snd (chunks n P xs) = P @ xs"
  by (induction xs arbitrary: P) simp_all

lemma chunks_lengths: "c \<in> set (fst (chunks n P xs)) \<Longrightarrow> length c = n"
  by (induction xs arbitrary: P) (auto split: if_splits)

lemma chunks_rest: "0 < n \<Longrightarrow> length P < n \<Longrightarrow> length (snd (chunks n P xs)) < n"
  by (induction xs arbitrary: P) auto

lemma length_concat_const:
  "(\<And>c. c \<in> set Cs \<Longrightarrow> length c = n) \<Longrightarrow> length (concat Cs) = n * length Cs"
  by (induction Cs) simp_all

lemma chunks_count:
  assumes "0 < n" "length P < n"
  shows "length (fst (chunks n P xs)) * n + length (snd (chunks n P xs)) = length P + length xs"
proof -
  have "length (concat (fst (chunks n P xs))) = n * length (fst (chunks n P xs))"
    by (rule length_concat_const) (rule chunks_lengths)
  moreover have "length (concat (fst (chunks n P xs)) @ snd (chunks n P xs)) = length (P @ xs)"
    by (simp only: chunks_concat)
  ultimately show ?thesis by (simp add: mult.commute)
qed





section \<open>The phases of hideBlob as runs of writes\<close>

lemma header_loop_writes:
  assumes "channelId st = 0"
  shows "header_loop k b st
           = writes k [(readBit (b - 1) 5, 1), (readBit (b - 1) 6, 1), (readBit (b - 1) 7, 1)] st"
proof -
  let ?s1 = "writeChannel k (readBit (b - 1) 5) 1 st"
  let ?s2 = "writeChannel k (readBit (b - 1) 6) 1 ?s1"
  let ?s3 = "writeChannel k (readBit (b - 1) 7) 1 ?s2"
  have c0: "channelId st = pos 0" using assms by (simp add: pos_def)
  have c1: "channelId ?s1 = 1"
    using writeChannel_channelId [OF c0] by (simp add: pos_def)
  then have "channelId ?s1 = pos 1" by (simp add: pos_def)
  from writeChannel_channelId [OF this] have c2: "channelId ?s2 = 2"
    by (simp add: pos_def)
  then have "channelId ?s2 = pos 2" by (simp add: pos_def)
  from writeChannel_channelId [OF this] have c3: "channelId ?s3 = 4"
    by (simp add: pos_def)
  have "header_loop k b ?s3 = ?s3"
    by (subst header_loop.simps) (simp add: c3)
  moreover have "header_loop k b ?s2 = header_loop k b ?s3"
    by (subst header_loop.simps) (simp add: c2)
  moreover have "header_loop k b ?s1 = header_loop k b ?s2"
    by (subst header_loop.simps) (simp add: c1)
  moreover have "header_loop k b st = header_loop k b ?s1"
    by (subst header_loop.simps) (simp add: assms)
  ultimately show ?thesis by simp
qed

lemma readBit_bit:
  assumes "0 \<le> i" "i \<le> 7"
  shows "readBit v i = of_bool (bit v (nat (7 - i)))"
proof -
  have "shift_count (7 - i) = nat (7 - i)"
    using assms by (simp add: shift_count_def)
  then show ?thesis by (simp add: readBit_def and1)
qed

lemma hide_bit_eq:
  assumes "0 \<le> i" "i \<le> 7"
  shows "hide_bit k b v i st = push_hidden k b (bit v (nat (7 - i))) st"
  unfolding hide_bit_def push_hidden_def Let_def readBit_bit [OF assms] or_bit
  by simp

lemma rev_upt8: "map (\<lambda>i. 7 - i) [0..<8] = rev [0..<8]"
  by (rule nth_equalityI) (simp_all add: rev_nth)

lemma hide_byte_eq: "hide_byte k b w st = fold (push_hidden k b) (byte_bits w) st"
proof -
  have "fold (\<lambda>i. hide_bit k b (uint w) (int i)) [0..<8] st
          = fold (\<lambda>i. push_hidden k b (bit (uint w) (7 - i))) [0..<8] st"
  proof (rule fold_cong [OF refl refl])
    fix i assume "i \<in> set [0..<8]"
    then have "0 \<le> int i" "int i \<le> 7" by auto
    from hide_bit_eq [OF this] have "hide_bit k b (uint w) (int i) = push_hidden k b (bit (uint w) (nat (7 - int i)))" 
      by (rule ext)
    moreover have "nat (7 - int i) = 7 - i" by simp
    ultimately show "hide_bit k b (uint w) (int i) = push_hidden k b (bit (uint w) (7 - i))"
      by simp
  qed
  also have "\<dots> = fold (push_hidden k b) (map (\<lambda>i. bit (uint w) (7 - i)) [0..<8]) st"
    by (simp add: fold_map comp_def)
  also have "map (\<lambda>i. bit (uint w) (7 - i)) [0..<8] = map (bit (uint w)) (map (\<lambda>i. 7 - i) [0..<8])"
    by (simp only: map_map comp_def)
  finally show ?thesis
    unfolding hide_byte_def byte_bits_def bits_of_def rev_upt8 .
qed

lemma hide_bytes_eq:
  "hide_bytes k b hData st = fold (push_hidden k b) (concat (map byte_bits hData)) st"
  unfolding hide_bytes_def
  by (induction hData arbitrary: st) (simp_all add: hide_byte_eq)

lemma push_hidden_chunks:
  assumes "buf st = val P" "bufBits st = int (length P)" "0 < n" "b = int n"
  shows "fold (push_hidden k b) xs st
           = (writes k (map (\<lambda>c. (val c, b)) (fst (chunks n P xs))) st)
               \<lparr> buf := val (snd (chunks n P xs)),
                 bufBits := int (length (snd (chunks n P xs))) \<rparr>"
  using assms(1,2)
proof (induction xs arbitrary: P st)
  case Nil
  then show ?case by simp
next
  case (Cons x xs)
  have v: "2 * buf st + of_bool x = val (P @ [x])"
    using Cons.prems(1) by (simp add: val_snoc)
  show ?case
  proof (cases "length P + 1 = n")
    case True
    let ?st = "(writeChannel k (val (P @ [x])) b st) \<lparr> buf := 0, bufBits := 0 \<rparr>"
    have p: "push_hidden k b x st = ?st"
      using True Cons.prems(2) assms(4) by (simp add: push_hidden_def v)
    have "buf ?st = val []" "bufBits ?st = int (length ([] :: bool list))" by simp_all
    from Cons.IH [OF this] show ?thesis
      using True by (simp add: p)
  next
    case False
    let ?st = "st \<lparr> buf := val (P @ [x]), bufBits := bufBits st + 1 \<rparr>"
    have p: "push_hidden k b x st = ?st"
      using False Cons.prems(2) assms(4) by (simp add: push_hidden_def v)
    have "buf ?st = val (P @ [x])" "bufBits ?st = int (length (P @ [x]))"
      using Cons.prems(2) by simp_all
    from Cons.IH [OF this] show ?thesis
      using False by (simp add: p)
  qed
qed

lemma fill_loop_bits:
  assumes "buf st = val P" "0 \<le> i" "i \<le> lo" "lo \<le> 8"
  shows "\<exists>F. length F = nat (lo - i)
           \<and> fill_loop r lo i st
                = Inr (st \<lparr> buf := val (P @ F), bufBits := bufBits st + (lo - i) \<rparr>)"
  using assms
proof (induction "nat (lo - i)" arbitrary: i st P)
  case 0
  then have "i = lo" by simp
  then have "fill_loop r lo i st = Inr st"
    by (subst fill_loop.simps) simp
  then show ?case using 0 \<open>i = lo\<close> by (intro exI [of _ "[]"]) simp
next
  case (Suc m)
  then have lt: "i < lo" by linarith
  then have i7: "\<not> i > 7" using Suc.prems(4) by simp
  let ?x = "bit r (nat (7 - i))"
  let ?st = "st \<lparr> buf := val (P @ [?x]), bufBits := bufBits st + 1 \<rparr>"
  have rb: "push_bit 1 (buf st) OR readBit r i = val (P @ [?x])"
    using Suc.prems(1,2) i7 by (simp only: readBit_bit or_bit val_snoc)
  have step: "fill_loop r lo i st = fill_loop r lo (i + 1) ?st"
    by (subst fill_loop.simps) (simp only: lt i7 if_True if_False rb)
  have "m = nat (lo - (i + 1))" using Suc.hyps(2) by linarith
  moreover have "buf ?st = val (P @ [?x])" by simp
  moreover have "0 \<le> i + 1" "i + 1 \<le> lo" using Suc.prems(2) lt by simp_all
  ultimately obtain F where F: "length F = nat (lo - (i + 1))"
    "fill_loop r lo (i + 1) ?st
       = Inr (?st \<lparr> buf := val ((P @ [?x]) @ F), bufBits := bufBits ?st + (lo - (i + 1)) \<rparr>)"
    using Suc.hyps(1) [of "i + 1" ?st "P @ [?x]"] Suc.prems(4) by blast
  have "length (?x # F) = nat (lo - i)" using F(1) lt by simp
  moreover have "fill_loop r lo i st
      = Inr (st \<lparr> buf := val (P @ ?x # F), bufBits := bufBits st + (lo - i) \<rparr>)"
    unfolding step F(2) by simp
  ultimately show ?case by blast
qed


lemma and_low_mask: "(v::int) AND (2 ^ n - 1) = val (bits_of n v)"
  by (simp add: val_bits_of take_bit_eq_mask mask_eq_exp_minus_1)

lemma flush_leftovers_writes:
  assumes "buf st = val P" "bufBits st = int (length P)" "length P < n" "n \<le> 8" "b = int n"
  shows "\<exists>F st'. length F = n - length P
           \<and> flush_leftovers k rnd b st = Inr st'
           \<and> arr st' = arr (writes k (map (\<lambda>c. (val c, b)) (if P = [] then [] else [P @ F])) st)
           \<and> channelId st'
                = channelId (writes k (map (\<lambda>c. (val c, b)) (if P = [] then [] else [P @ F])) st)"
proof (cases "P = []")
  case True
  then have "flush_leftovers k rnd b st = Inr st"
    using assms(2) by (simp add: flush_leftovers_def)
  then show ?thesis using True by (intro exI [of _ "replicate n False"] exI [of _ st]) simp
next
  case False
  let ?r = "uint (rnd (draws st))"
  let ?st1 = "st \<lparr> draws := draws st + 1 \<rparr>"
  let ?lo = "b - bufBits ?st1"
  have lo: "0 \<le> (0::int)" "0 \<le> ?lo" "?lo \<le> 8"
    using assms(2-5) by simp_all
  have "buf ?st1 = val P" using assms(1) by simp
  from fill_loop_bits [OF this lo, of ?r] obtain F where
    F: "length F = nat (?lo - 0)"
       "fill_loop ?r ?lo 0 ?st1
          = Inr (?st1 \<lparr> buf := val (P @ F), bufBits := bufBits ?st1 + (?lo - 0) \<rparr>)"
    by blast
  let ?st2 = "?st1 \<lparr> buf := val (P @ F), bufBits := bufBits ?st1 + (?lo - 0) \<rparr>"
  have nz: "bufBits st \<noteq> 0" using False assms(2) by simp
  have bb: "bufBits ?st2 = b" by simp
  have "flush_leftovers k rnd b st = Inr (writeChannel k (buf ?st2) b ?st2)"
    unfolding flush_leftovers_def Let_def if_P [OF nz] F(2) using bb by simp
  moreover have "length F = n - length P" using F(1) assms(2,3,5) by simp
  moreover have "arr (writeChannel k (buf ?st2) b ?st2) = arr (writes k [(val (P @ F), b)] st)"
    "channelId (writeChannel k (buf ?st2) b ?st2) = channelId (writes k [(val (P @ F), b)] st)"
    by simp_all
  ultimately show ?thesis using False by auto
qed

lemma trailing_loop_writes:
  assumes "channelId st = pos s" "s \<le> 3 * m" "b = int n"
  shows "\<exists>T. length T = 3 * m - s \<and> (\<forall>c \<in> set T. length c = n)
           \<and> arr (trailing_loop k rnd b (4 * m) st) = arr (writes k (map (\<lambda>c. (val c, b)) T) st)
           \<and> channelId (trailing_loop k rnd b (4 * m) st) = 4 * m"
  using assms(1,2)
proof (induction "3 * m - s" arbitrary: s st)
  case 0
  then have "s = 3 * m" by simp
  then have c: "channelId st = 4 * m" using 0(2) by (simp add: pos_3n)
  then have "trailing_loop k rnd b (4 * m) st = st"
    by (subst trailing_loop.simps) simp
  then show ?case using c \<open>s = 3 * m\<close> by (intro exI [of _ "[]"]) simp
next
  case (Suc j)
  then have lt: "s < 3 * m" by simp
  then have "pos s < pos (3 * m)" by (rule pos_mono)
  then have c: "channelId st < 4 * m" using Suc.prems(1) by (simp add: pos_3n)
  let ?C = "bits_of n (uint (rnd (draws st)))"
  let ?st = "writeChannel k (val ?C) b (st \<lparr> draws := draws st + 1 \<rparr>)"
  have step: "trailing_loop k rnd b (4 * m) st = trailing_loop k rnd b (4 * m) ?st"
    by (subst trailing_loop.simps) (simp add: c Let_def and_low_mask assms(3))
  have cs: "channelId ?st = pos (Suc s)"
    using writeChannel_channelId [of "st \<lparr> draws := draws st + 1 \<rparr>" s] Suc.prems(1) by simp
  have "j = 3 * m - Suc s" "Suc s \<le> 3 * m" using Suc.hyps(2) lt by simp_all
  from Suc.hyps(1) [OF this(1) cs this(2)] obtain T where
    T: "length T = 3 * m - Suc s" "\<forall>c \<in> set T. length c = n"
       "arr (trailing_loop k rnd b (4 * m) ?st) = arr (writes k (map (\<lambda>c. (val c, b)) T) ?st)"
       "channelId (trailing_loop k rnd b (4 * m) ?st) = 4 * m"
    by blast
  have "length (?C # T) = 3 * m - s" using T(1) lt by simp
  moreover have "\<forall>c \<in> set (?C # T). length c = n" using T(2) by simp
  moreover have "arr (trailing_loop k rnd b (4 * m) st)
      = arr (writes k (map (\<lambda>c. (val c, b)) (?C # T)) st)"
    unfolding step T(3) by simp
  moreover have "channelId (trailing_loop k rnd b (4 * m) st) = 4 * m"
    unfolding step T(4) ..
  ultimately show ?case by blast
qed

lemma writeChannel_cong:
  assumes "arr st = arr st'" "channelId st = channelId st'"
  shows "arr (writeChannel k d nb st) = arr (writeChannel k d nb st')"
    and "channelId (writeChannel k d nb st) = channelId (writeChannel k d nb st')"
  using assms by (simp_all add: writeChannel_def Let_def)

lemma writes_cong:
  assumes "arr st = arr st'" "channelId st = channelId st'"
  shows "arr (writes k ws st) = arr (writes k ws st') \<and> channelId (writes k ws st) = channelId (writes k ws st')"
  using assms
proof (induction ws arbitrary: st st')
  case Nil
  then show ?case by simp
next
  case (Cons w ws)
  from Cons.IH [OF writeChannel_cong [OF Cons.prems]] show ?case by simp
qed

lemma length_byte_bits [simp]: "length (byte_bits w) = 8"
  by (simp add: byte_bits_def)

lemma length_stream: "length (concat (map byte_bits hData)) = 8 * length hData"
  by (induction hData) simp_all

lemma capacity_bound:
  assumes "1 \<le> b" "int h \<le> ((int m - 1) * 3 * b) div 8"
  shows "1 \<le> m" and "8 * h \<le> 3 * (m - 1) * nat b"
proof -
  show m: "1 \<le> m"
  proof (rule ccontr)
    assume "\<not> 1 \<le> m"
    then have "m = 0" by simp
    then have "((int m - 1) * 3 * b) div 8 < 0" using assms(1) by simp
    with assms(2) show False by simp
  qed
  have "8 * (((int m - 1) * 3 * b) div 8) \<le> (int m - 1) * 3 * b"
    by simp
  with assms(2) have "8 * int h \<le> (int m - 1) * 3 * b" by linarith
  moreover have "(int m - 1) * 3 * b = int (3 * (m - 1) * nat b)"
    using m assms(1) by simp
  ultimately have "int (8 * h) \<le> int (3 * (m - 1) * nat b)" by simp
  then show "8 * h \<le> 3 * (m - 1) * nat b" by (simp only: of_nat_le_iff)
qed

lemma chunk_count_bound:
  assumes "0 < n" "q * n + r = t" "t \<le> M * n" "r < n"
  shows "q + (if r = 0 then 0 else 1) \<le> (M::nat)"
proof (cases "r = 0")
  case True
  with assms have "q * n \<le> M * n" by linarith
  then have "q \<le> M" using assms(1) by simp
  then show ?thesis using True by simp
next
  case False
  with assms have "q * n < M * n" by linarith
  then have "q < M" using assms(1) by simp
  then show ?thesis using False by simp
qed

lemma write_sequence:
  assumes b: "1 \<le> b" "b \<le> 8"
      and h: "8 * length hData \<le> 3 * (m - 1) * nat b" and m: "1 \<le> m"
  shows "\<exists>Cs rest st1.
           length Cs = 3 * (m - 1) \<and> (\<forall>c \<in> set Cs. length c = nat b)
           \<and> concat Cs = concat (map byte_bits hData) @ rest
           \<and> flush_leftovers k rnd b (hide_bytes k b hData (header_loop k b (start_cursor chs)))
                = Inr st1
           \<and> arr (trailing_loop k rnd b (4 * m) st1)
                = arr (writes k (hdr b @ map (\<lambda>c. (val c, b)) Cs) (start_cursor chs))
           \<and> channelId (trailing_loop k rnd b (4 * m) st1) = 4 * m"
proof -
  define n where "n = nat b"
  have n: "0 < n" "n \<le> 8" "b = int n" using b by (simp_all add: n_def)
  define st0 where "st0 = start_cursor chs"
  define sH where "sH = header_loop k b st0"
  define stream where "stream = concat (map byte_bits hData)"
  define Cp where "Cp = fst (chunks n [] stream)"
  define R where "R = snd (chunks n [] stream)"
  define sP where "sP = hide_bytes k b hData sH"
  let ?w = "\<lambda>Cs. map (\<lambda>c. (val c, b)) Cs"
  have c0: "channelId st0 = 0" by (simp add: st0_def start_cursor_def)
  have sH: "sH = writes k (hdr b) st0"
    unfolding sH_def hdr_def by (rule header_loop_writes [OF c0])
  have bH: "buf sH = val []" "bufBits sH = int (length ([] :: bool list))"
    unfolding sH by (simp_all add: st0_def start_cursor_def)
  have sP: "sP = (writes k (?w Cp) sH) \<lparr> buf := val R, bufBits := int (length R) \<rparr>"
    unfolding sP_def hide_bytes_eq Cp_def R_def stream_def
    by (rule push_hidden_chunks [OF bH n(1,3)])
  have R: "length R < n" unfolding R_def by (rule chunks_rest) (use n in simp_all)
  have cnt: "length Cp * n + length R = 8 * length hData"
    using chunks_count [of n "[]" stream] n(1)
    by (simp add: Cp_def R_def stream_def length_stream)
  have bP: "buf sP = val R" "bufBits sP = int (length R)" unfolding sP by simp_all
  from flush_leftovers_writes [OF bP R n(2,3), of k rnd] obtain F sF where
    F: "length F = n - length R" "flush_leftovers k rnd b sP = Inr sF"
       "arr sF = arr (writes k (?w (if R = [] then [] else [R @ F])) sP)"
       "channelId sF = channelId (writes k (?w (if R = [] then [] else [R @ F])) sP)"
    by blast
  define W where "W = (if R = [] then [] else [R @ F])"
  have lW: "length W = (if length R = 0 then 0 else 1)" by (simp add: W_def)
  have aF: "arr sF = arr (writes k (hdr b @ ?w (Cp @ W)) st0)"
    unfolding F(3) sP sH W_def [symmetric] by (simp add: writes_append)
  have "channelId st0 = pos 0" using c0 by (simp add: pos_def)
  moreover have "0 + length (hdr b @ ?w (Cp @ W)) = 3 + length Cp + length W"
    by (simp add: hdr_def)
  ultimately have "channelId (writes k (hdr b @ ?w (Cp @ W)) st0) = pos (3 + length Cp + length W)"
    using writes_channelId [of st0 0 k "hdr b @ ?w (Cp @ W)"] by (simp only:)
  then have cF: "channelId sF = pos (3 + length Cp + length W)"
    unfolding F(4) sP sH W_def [symmetric] by (simp add: writes_append)
  have "length Cp + (if length R = 0 then 0 else 1) \<le> 3 * (m - 1)"
    using chunk_count_bound [OF n(1) cnt _ R] h by (simp add: n_def)
  then have le: "3 + length Cp + length W \<le> 3 * m" using lW m by simp
  from trailing_loop_writes [OF cF le n(3), of k rnd] obtain T where
    T: "length T = 3 * m - (3 + length Cp + length W)" "\<forall>c \<in> set T. length c = n"
       "arr (trailing_loop k rnd b (4 * m) sF) = arr (writes k (?w T) sF)"
       "channelId (trailing_loop k rnd b (4 * m) sF) = 4 * m"
    by blast
  have "arr (writes k (?w T) sF) = arr (writes k (?w T) (writes k (hdr b @ ?w (Cp @ W)) st0))"
    using writes_cong [of sF "writes k (hdr b @ ?w (Cp @ W)) st0" k "?w T"] aF cF
      \<open>channelId (writes k (hdr b @ ?w (Cp @ W)) st0) = pos (3 + length Cp + length W)\<close>
    by simp
  then have aT: "arr (trailing_loop k rnd b (4 * m) sF)
      = arr (writes k (hdr b @ ?w (Cp @ W @ T)) st0)"
    unfolding T(3) by (simp add: writes_append)
  have l: "length (Cp @ W @ T) = 3 * (m - 1)" using T(1) le m by simp
  have lc: "\<forall>c \<in> set (Cp @ W @ T). length c = n"
    using T(2) chunks_lengths [of _ n "[]" stream] F(1) R
    by (auto simp: Cp_def W_def)
  have "concat Cp @ R = stream"
    using chunks_concat [of n "[]" stream] by (simp add: Cp_def R_def)
  then have "concat (Cp @ W @ T) = stream @ (if R = [] then [] else F) @ concat T"
    by (auto simp: W_def)
  with l lc F(2) aT T(4) show ?thesis
    unfolding sP_def sH_def st0_def stream_def n_def by blast
qed

lemma hideBlob_unfold:
  assumes "1 \<le> b" "b \<le> 8" "calcCapacity img b = Inr c" "int (length hData) \<le> bytes c"
      and "flush_leftovers (kind img) rnd b
             (hide_bytes (kind img) b hData (header_loop (kind img) b (start_cursor (channels img))))
             = Inr st1"
      and "channelId (trailing_loop (kind img) rnd b (length (channels img)) st1)
             = length (channels img)"
  shows "hideBlob rnd hData b img
           = (Inr (), img \<lparr> channels :=
                 arr (trailing_loop (kind img) rnd b (length (channels img)) st1) \<rparr>)"
proof -
  have v: "validateBits b = Inr ()" using assms(1,2) by (rule validateBits_ok)
  have n: "\<not> int (length hData) > bytes c" using assms(4) by simp
  show ?thesis
    unfolding hideBlob_def Let_def v assms(3) sum.case if_not_P [OF n]
      start_cursor_def [symmetric] assms(5) assms(6)
    by simp
qed

lemma hideBlob_result:
  assumes b: "1 \<le> b" "b \<le> 8" and L: "length (channels img) = 4 * m"
      and c: "calcCapacity img b = Inr c" and h: "int (length hData) \<le> bytes c"
  shows "\<exists>Cs rest st1.
           length Cs = 3 * (m - 1) \<and> (\<forall>c \<in> set Cs. length c = nat b)
           \<and> concat Cs = concat (map byte_bits hData) @ rest
           \<and> flush_leftovers (kind img) rnd b
                (hide_bytes (kind img) b hData
                   (header_loop (kind img) b (start_cursor (channels img)))) = Inr st1
           \<and> channelId (trailing_loop (kind img) rnd b (length (channels img)) st1)
                = length (channels img)
           \<and> hideBlob rnd hData b img
                = (Inr (), img \<lparr> channels :=
                     arr (writes (kind img) (hdr b @ map (\<lambda>c. (val c, b)) Cs)
                            (start_cursor (channels img))) \<rparr>)
           \<and> 1 \<le> m"
proof -
  have "bytes c = ((int m - 1) * 3 * b) div 8"
    using c unfolding calcCapacity_pixels [OF b L] by auto
  with h have hb: "int (length hData) \<le> ((int m - 1) * 3 * b) div 8" by simp
  note cb = capacity_bound [OF b(1) hb]
  from write_sequence [OF b cb(2,1), of "kind img" rnd "channels img"] obtain Cs rest st1 where
    w: "length Cs = 3 * (m - 1)" "\<forall>c \<in> set Cs. length c = nat b"
       "concat Cs = concat (map byte_bits hData) @ rest"
       "flush_leftovers (kind img) rnd b
          (hide_bytes (kind img) b hData (header_loop (kind img) b (start_cursor (channels img))))
          = Inr st1"
       "arr (trailing_loop (kind img) rnd b (4 * m) st1)
          = arr (writes (kind img) (hdr b @ map (\<lambda>c. (val c, b)) Cs) (start_cursor (channels img)))"
       "channelId (trailing_loop (kind img) rnd b (4 * m) st1) = 4 * m"
    by blast
  have e: "channelId (trailing_loop (kind img) rnd b (length (channels img)) st1)
             = length (channels img)"
    unfolding L by (rule w(6))
  have "hideBlob rnd hData b img
          = (Inr (), img \<lparr> channels :=
                 arr (trailing_loop (kind img) rnd b (length (channels img)) st1) \<rparr>)"
    by (rule hideBlob_unfold [OF b c h w(4) e])
  then have "hideBlob rnd hData b img
                = (Inr (), img \<lparr> channels :=
                     arr (writes (kind img) (hdr b @ map (\<lambda>c. (val c, b)) Cs)
                            (start_cursor (channels img))) \<rparr>)"
    unfolding L w(5) .
  with w(1-4) e cb(1) show ?thesis by blast
qed

section \<open>What a write leaves in a channel\<close>







section \<open>Properties of hideBlob and hide\<close>

lemma dvd4_pixels: "4 dvd (L::nat) \<Longrightarrow> \<exists>m. L = 4 * m"
  by (auto elim: dvdE)

text \<open>
  C7. On a channel array whose length is a multiple of 4, with \<open>bitsTaken\<close> in \<open>[1, 8]\<close>
  and a payload of at most \<open>calcCapacity(bitsTaken).bytes\<close> bytes, the write sequence of
  \<^verbatim>\<open>hideBlob\<close> (header, payload, flush of the partial channel with random bits,
  trailing random fill) completes without a throw and leaves the cursor equal to the array
  length, so \<^verbatim>\<open>hideBlob\<close> passes its cursor check: the branch that throws the
  pixel-length error is not taken.
\<close>

theorem hideBlob_cursor_reaches_end:
  assumes "4 dvd length (channels img)" and "1 \<le> b" and "b \<le> 8"
      and "calcCapacity img b = Inr c" and "int (length hData) \<le> bytes c"
  shows "\<exists>st1. flush_leftovers (kind img) rnd b
                  (hide_bytes (kind img) b hData
                     (header_loop (kind img) b (start_cursor (channels img)))) = Inr st1
           \<and> channelId (trailing_loop (kind img) rnd b (length (channels img)) st1)
                = length (channels img)
           \<and> fst (hideBlob rnd hData b img) = Inr ()
           \<and> fst (hideBlob rnd hData b img) \<noteq> Inl PixelLengthError"
proof -
  from assms(1) obtain m where L: "length (channels img) = 4 * m"
    using dvd4_pixels by blast
  from hideBlob_result [OF assms(2,3) L assms(4,5), of rnd] show ?thesis
    by auto
qed

lemma img16_capacity:
  "calcCapacity \<lparr> kind = k, channels = replicate 16 x \<rparr> 1 = Inr \<lparr> bits = 9, bytes = 1 \<rparr>"
  using calcCapacity_pixels [of 1 "\<lparr> kind = k, channels = replicate 16 x \<rparr>" 4] by simp

theorem hideBlob_cursor_reaches_end_witness:
  "4 dvd length (channels \<lparr> kind = Uint8Array, channels = replicate 16 0 \<rparr>)
   \<and> calcCapacity \<lparr> kind = Uint8Array, channels = replicate 16 0 \<rparr> 1
        = Inr \<lparr> bits = 9, bytes = 1 \<rparr>
   \<and> int (length [170 :: byte]) \<le> bytes \<lparr> bits = 9, bytes = 1 \<rparr>
   \<and> fst (hideBlob (\<lambda>i. 0) [170] 1 \<lparr> kind = Uint8Array, channels = replicate 16 0 \<rparr>) = Inr ()"
  using hideBlob_cursor_reaches_end
          [of "\<lparr> kind = Uint8Array, channels = replicate 16 0 \<rparr>" 1
              "\<lparr> bits = 9, bytes = 1 \<rparr>" "[170]" "\<lambda>i. 0"]
        img16_capacity [of Uint8Array 0]
  by auto

text \<open>
  C9. After \<^verbatim>\<open>hideBlob\<close> has completed on a channel array whose length is a multiple
  of 4 (\<open>bitsTaken\<close> in \<open>[1, 8]\<close>, payload within capacity), every alpha channel, that is
  every index \<open>i\<close> with \<open>i mod 4 = 3\<close> including index 3 of the header pixel, holds what a
  store of 256 leaves in the array: 0 in a \<^verbatim>\<open>Uint8Array\<close>, where the store wraps.
\<close>

theorem hideBlob_blanks_alpha:
  assumes "4 dvd length (channels img)" and "1 \<le> b" and "b \<le> 8"
      and "calcCapacity img b = Inr c" and "int (length hData) \<le> bytes c"
  shows "fst (hideBlob rnd hData b img) = Inr ()
         \<and> length (channels (snd (hideBlob rnd hData b img))) = length (channels img)
         \<and> (\<forall>i < length (channels img). isAlpha i \<longrightarrow>
               channels (snd (hideBlob rnd hData b img)) ! i = to_elem (kind img) 256)
         \<and> to_elem Uint8Array 256 = 0
         \<and> (kind img = Uint8Array \<longrightarrow>
               (\<forall>i < length (channels img). i mod 4 = 3 \<longrightarrow>
                  channels (snd (hideBlob rnd hData b img)) ! i = 0))"
proof -
  from assms(1) obtain m where L: "length (channels img) = 4 * m"
    using dvd4_pixels by blast
  from hideBlob_result [OF assms(2,3) L assms(4,5), of rnd] obtain Cs where
    Cs: "length Cs = 3 * (m - 1)" "1 \<le> m"
        "hideBlob rnd hData b img
           = (Inr (), img \<lparr> channels :=
                arr (writes (kind img) (hdr b @ map (\<lambda>c. (val c, b)) Cs)
                       (start_cursor (channels img))) \<rparr>)"
    by blast
  let ?ws = "hdr b @ map (\<lambda>c. (val c, b)) Cs"
  let ?st0 = "start_cursor (channels img)"
  have c0: "channelId ?st0 = pos 0" by (simp add: start_cursor_def pos_def)
  have lw: "0 + length ?ws = 3 * m" using Cs(1,2) by (simp add: hdr_def)
  have a: "arr (writes (kind img) ?ws ?st0) ! i = to_elem (kind img) 256"
    if "i < length (channels img)" "isAlpha i" for i
  proof (rule writes_alpha [OF c0 _ _ that(2)])
    show "pos 0 \<le> i" by (simp add: pos_def)
    show "i < pos (0 + length ?ws)" unfolding lw pos_3n using that(1) L by simp
    show "i < length (arr ?st0)" using that(1) by (simp add: start_cursor_def)
  qed
  have z: "to_elem Uint8Array 256 = 0" by (simp add: to_elem_def)
  have l: "length (arr (writes (kind img) ?ws ?st0)) = length (channels img)"
    by (simp add: start_cursor_def)
  show ?thesis
    unfolding Cs(3) using a z l by (auto simp: isAlpha_def)
qed

theorem hideBlob_blanks_alpha_witness:
  "channels (snd (hideBlob (\<lambda>i. 0) [170] 1 \<lparr> kind = Uint8Array, channels = replicate 16 255 \<rparr>)) ! 3 = 0
   \<and> channels (snd (hideBlob (\<lambda>i. 0) [170] 1 \<lparr> kind = Uint8Array, channels = replicate 16 255 \<rparr>)) ! 15 = 0
   \<and> channels (snd (hideBlob (\<lambda>i. 0) [170] 1 \<lparr> kind = Uint8ClampedArray, channels = replicate 16 7 \<rparr>)) ! 7 = 255"
  using hideBlob_blanks_alpha
          [of "\<lparr> kind = Uint8Array, channels = replicate 16 255 \<rparr>" 1
              "\<lparr> bits = 9, bytes = 1 \<rparr>" "[170]" "\<lambda>i. 0"]
        hideBlob_blanks_alpha
          [of "\<lparr> kind = Uint8ClampedArray, channels = replicate 16 7 \<rparr>" 1
              "\<lparr> bits = 9, bytes = 1 \<rparr>" "[170]" "\<lambda>i. 0"]
        img16_capacity [of Uint8Array 255] img16_capacity [of Uint8ClampedArray 7]
  by (simp add: isAlpha_def to_elem_def)

text \<open>
  C6. For every image, key and \<open>bitsTaken\<close> in \<open>[1, 8]\<close>: when the packed file is longer
  than \<open>calcCapacity(bitsTaken).bytes - 28\<close>, \<^verbatim>\<open>hide\<close> throws the required-length
  error of \<^verbatim>\<open>packWithPadding\<close> and leaves the image as it was. The outcome is the
  same for every encryption provider and random source: neither has been consulted.
\<close>

theorem hide_rejects_oversize:
  assumes "1 \<le> b" and "b \<le> 8" and "calcCapacity img b = Inr c"
      and "pack tc rawFile = Inr packed" and "int (length packed) > bytes c - 28"
  shows "hide tc ae rnd rawFile key b img = (Inl RequiredLengthError, img)
         \<and> hide tc ae' rnd' rawFile key b img = hide tc ae rnd rawFile key b img"
proof -
  have "packWithPadding tc rawFile (bytes c - ENCRYPTED_METADATA_SIZE) = Inl RequiredLengthError"
    unfolding packWithPadding_eq [OF assms(4)] ENCRYPTED_METADATA_SIZE_def
    using assms(5) by simp
  then have "hide tc x y rawFile key b img = (Inl RequiredLengthError, img)" for x y
    unfolding hide_def assms(3) Let_def by simp
  then show ?thesis by simp
qed

theorem hide_rejects_oversize_witness:
  "calcCapacity \<lparr> kind = Uint8Array, channels = replicate 16 0 \<rparr> 1
        = Inr \<lparr> bits = 9, bytes = 1 \<rparr>
   \<and> pack ascii_coder (new_RawFile [1, 2, 3] ''a.txt'')
        = Inr [5, 97, 46, 116, 120, 116, 0, 0, 0, 3, 1, 2, 3]
   \<and> int (length [5, 97, 46, 116, 120, 116, 0, 0, 0, 3, 1, 2, 3 :: byte])
        > bytes \<lparr> bits = 9, bytes = 1 \<rparr> - 28
   \<and> hide ascii_coder shape_aead (\<lambda>i. 0) (new_RawFile [1, 2, 3] ''a.txt'') (replicate 32 1) 1
        \<lparr> kind = Uint8Array, channels = replicate 16 0 \<rparr>
        = (Inl RequiredLengthError, \<lparr> kind = Uint8Array, channels = replicate 16 0 \<rparr>)"
proof -
  have p: "pack ascii_coder (new_RawFile [1, 2, 3] ''a.txt'')
             = Inr [5, 97, 46, 116, 120, 116, 0, 0, 0, 3, 1, 2, 3]"
    by (rule pack_a_txt)
  show ?thesis
    using hide_rejects_oversize
            [of 1 "\<lparr> kind = Uint8Array, channels = replicate 16 0 \<rparr>"
                "\<lparr> bits = 9, bytes = 1 \<rparr>" ascii_coder "new_RawFile [1, 2, 3] ''a.txt''"
                "[5, 97, 46, 116, 120, 116, 0, 0, 0, 3, 1, 2, 3]" shape_aead "\<lambda>i. 0"
                "replicate 32 1" shape_aead "\<lambda>i. 0"]
          img16_capacity [of Uint8Array 0] p
    by simp
qed

section \<open>The reading loop\<close>

lemma pos_mult3: "s mod 3 = 0 \<Longrightarrow> pos s mod 4 = 0"
  by (simp add: pos_mod4)




















section \<open>Reading back what was hidden\<close>










section \<open>The test vectors of the repository\<close>

text \<open>
  The test \<^verbatim>\<open>basic hideBlob/revealBlob\<close> of \<^verbatim>\<open>test/index.js\<close> hides the byte
  \<open>0b10101010\<close> with one bit per channel in a 4-pixel image of zeros and expects the
  channels \<open>0 0 0 0, 1 0 1 0, 0 1 0 0, 1 0\<close> followed by two channels it does not fix; the
  model computes them, here with a random source of zeros, and reads the byte back.
\<close>

lemma hideBlob_test_vector:
  "hideBlob (\<lambda>i. 0) [170] 1 \<lparr> kind = Uint8Array, channels = replicate 16 0 \<rparr>
     = (Inr (), \<lparr> kind = Uint8Array,
                   channels = [0, 0, 0, 0, 1, 0, 1, 0, 0, 1, 0, 0, 1, 0, 0, 0] \<rparr>)"
  by code_simp

lemma revealBlob_test_vector:
  "revealBlob \<lparr> kind = Uint8Array,
                channels = [0, 0, 0, 0, 1, 0, 1, 0, 0, 1, 0, 0, 1, 0, 0, 0] \<rparr> = Inr [170]"
  by code_simp

end
